theory Spec2Isabelle
  imports Main
begin

section \<open>Reconciliation engine and persistence\<close>

text \<open>
  The chat agent keeps the conversation as rows keyed by message identifier. The
  function \<^verbatim>\<open>_reconcileAssistantIdsWithServerState\<close> and the method
  \<^verbatim>\<open>persistMessages\<close> are exercised by
  \<^verbatim>\<open>tests/reconcile-identical-content.test.ts\<close> and described by the changesets,
  but their bodies are not among the sources at hand; they are modelled from the
  specification (section 4.4).
\<close>

datatype role = User | Assistant | System | Tool

record message =
  msg_id :: string
  msg_role :: role
  msg_content :: string

text \<open>
  Modelled from the spec: the body of \<^verbatim>\<open>_reconcileAssistantIdsWithServerState\<close> is
  missing. The server indices that no client message has claimed yet, in ascending
  original order.
\<close>

definition unclaimed :: "message list \<Rightarrow> nat set \<Rightarrow> nat list" where
  "unclaimed server claimed = filter (\<lambda>j. j \<notin> claimed) [0..<length server]"

text \<open>
  Modelled from the spec: the body of \<^verbatim>\<open>_reconcileAssistantIdsWithServerState\<close> is
  missing. Pass 1, one client message: the first unclaimed server index that carries the
  same identifier.
\<close>

definition find_exact :: "message list \<Rightarrow> nat set \<Rightarrow> message \<Rightarrow> nat option" where
  "find_exact server claimed c =
     List.find (\<lambda>j. msg_id (server ! j) = msg_id c) (unclaimed server claimed)"

text \<open>
  Modelled from the spec: the body of \<^verbatim>\<open>_reconcileAssistantIdsWithServerState\<close> is
  missing. Pass 1 over the client list in order: each exact-identifier hit claims its
  server index.
\<close>

fun exact_pass :: "message list \<Rightarrow> message list \<Rightarrow> nat set \<Rightarrow> nat option list \<times> nat set" where
  "exact_pass server [] claimed = ([], claimed)"
| "exact_pass server (c # cs) claimed =
     (case find_exact server claimed c of
        None \<Rightarrow> (let (r, cl) = exact_pass server cs claimed in (None # r, cl))
      | Some j \<Rightarrow> (let (r, cl) = exact_pass server cs (insert j claimed) in (Some j # r, cl)))"

text \<open>
  Modelled from the spec: the comparison used by pass 2 is missing. Two messages match
  when role and serialized content are equal.
\<close>

definition same_content :: "message \<Rightarrow> message \<Rightarrow> bool" where
  "same_content s c \<longleftrightarrow> msg_role s = msg_role c \<and> msg_content s = msg_content c"

text \<open>
  Modelled from the spec: the body of \<^verbatim>\<open>_reconcileAssistantIdsWithServerState\<close> is
  missing. Pass 2, one client message: only assistant messages are matched by content;
  every still-unclaimed server index is scanned in ascending order and the first one with
  equal role and equal serialized content wins.
\<close>

definition find_content :: "message list \<Rightarrow> nat set \<Rightarrow> message \<Rightarrow> nat option" where
  "find_content server claimed c =
     (if msg_role c = Assistant
      then List.find (\<lambda>j. same_content (server ! j) c) (unclaimed server claimed)
      else None)"

text \<open>
  Modelled from the spec: the body of \<^verbatim>\<open>_reconcileAssistantIdsWithServerState\<close> is
  missing. Pass 2 over the client list in order, yielding the final identifier of every
  client message: an exact hit keeps its identifier, a content hit takes the server
  identifier and claims the index, anything else keeps the client identifier.
\<close>

fun content_pass :: "message list \<Rightarrow> (message \<times> nat option) list \<Rightarrow> nat set \<Rightarrow> string list" where
  "content_pass server [] claimed = []"
| "content_pass server ((c, Some j) # rest) claimed =
     msg_id (server ! j) # content_pass server rest claimed"
| "content_pass server ((c, None) # rest) claimed =
     (case find_content server claimed c of
        None \<Rightarrow> msg_id c # content_pass server rest claimed
      | Some j \<Rightarrow> msg_id (server ! j) # content_pass server rest (insert j claimed))"

text \<open>
  Modelled from the spec: the body of \<^verbatim>\<open>_reconcileAssistantIdsWithServerState\<close> is
  missing. Both passes in sequence, starting with no server index claimed.
\<close>

definition final_ids :: "message list \<Rightarrow> message list \<Rightarrow> string list" where
  "final_ids server client =
     (let (hits, claimed) = exact_pass server client {}
      in content_pass server (zip client hits) claimed)"

record reconciliation_result =
  id_mapping :: "(string \<times> string) list"
  final_messages :: "message list"
  to_delete :: "string list"

text \<open>
  Modelled from the spec: the deletion rule of \<^verbatim>\<open>persistMessages\<close>
  (\<^verbatim>\<open>_deleteStaleRows\<close>) is missing. The stale identifiers are the server identifiers
  absent from the final list, and they may be deleted only when every final identifier is
  a server identifier.
\<close>

definition stale_ids :: "string list \<Rightarrow> string list \<Rightarrow> string list" where
  "stale_ids serverIds finalIds =
     (if set finalIds \<subseteq> set serverIds
      then filter (\<lambda>i. i \<notin> set finalIds) serverIds
      else [])"

text \<open>
  Modelled from the spec: the result of reconciliation is missing from the sources. It
  holds the mapping from client to final identifiers, the final list and the identifiers
  safe to delete.
\<close>

definition reconcile :: "message list \<Rightarrow> message list \<Rightarrow> reconciliation_result" where
  "reconcile server client =
     (let fin = final_ids server client
      in \<lparr> id_mapping = zip (map msg_id client) fin,
           final_messages = map (\<lambda>(c, i). c\<lparr>msg_id := i\<rparr>) (zip client fin),
           to_delete = stale_ids (map msg_id server) fin \<rparr>)"

text \<open>
  Modelled from the spec: the store behind \<^verbatim>\<open>persistMessages\<close> is missing. A row is
  upserted by identifier: an existing row is replaced in place, a new one is appended.
\<close>

definition upsert :: "message \<Rightarrow> message list \<Rightarrow> message list" where
  "upsert m rows =
     (if msg_id m \<in> set (map msg_id rows)
      then map (\<lambda>r. if msg_id r = msg_id m then m else r) rows
      else rows @ [m])"

text \<open>
  Modelled from the spec: the body of \<^verbatim>\<open>persistMessages\<close> with
  \<^verbatim>\<open>_deleteStaleRows\<close> is missing. Every message of the final list is upserted, then
  the permitted deletions are applied.
\<close>

definition persistMessages :: "message list \<Rightarrow> message list \<Rightarrow> message list" where
  "persistMessages rows client =
     (let r = reconcile rows client;
          rows' = fold upsert (final_messages r) rows
      in filter (\<lambda>m. msg_id m \<notin> set (to_delete r)) rows')"

text \<open>The two conversations of the regression tests for identical assistant content.\<close>

definition U1 :: message where
  "U1 = \<lparr> msg_id = ''u1'', msg_role = User, msg_content = ''Hi'' \<rparr>"

definition U2 :: message where
  "U2 = \<lparr> msg_id = ''u2'', msg_role = User, msg_content = ''More'' \<rparr>"

definition sure :: "string \<Rightarrow> message" where
  "sure i = \<lparr> msg_id = i, msg_role = Assistant, msg_content = ''Sure'' \<rparr>"

definition server_sure :: "message list" where
  "server_sure = [U1, sure ''assistant_s1'', U2, sure ''assistant_s2'']"

definition client_fresh :: "message list" where
  "client_fresh = [U1, sure ''client_x1'', U2, sure ''client_x2'']"

definition client_drift :: "message list" where
  "client_drift = [U1, sure ''assistant_s2'', U2, sure ''client_x1'']"

text \<open>
  A stored conversation of three messages, the client's list after a regenerate trim
  (the first two), and the client's list with one message the server never had.
\<close>

definition server_three :: "message list" where
  "server_three = [U1, sure ''assistant_s1'', U2]"

definition client_trim :: "message list" where
  "client_trim = [U1, sure ''assistant_s1'']"

definition client_append :: "message list" where
  "client_append =
     [U1, sure ''assistant_s1'',
      \<lparr> msg_id = ''u3'', msg_role = User, msg_content = ''Other'' \<rparr>]"


section \<open>The WebSocket chat transport\<close>

subsection \<open>Wire frames\<close>

text \<open>
  The message kinds of \<^verbatim>\<open>MessageType\<close> (declared in \<^verbatim>\<open>./types\<close>) that the
  transport sends or inspects; every other kind is \<open>CF_AGENT_OTHER\<close>.
\<close>

datatype MessageType =
    CF_AGENT_USE_CHAT_REQUEST
  | CF_AGENT_USE_CHAT_RESPONSE
  | CF_AGENT_CHAT_REQUEST_CANCEL
  | CF_AGENT_STREAM_RESUME_REQUEST
  | CF_AGENT_STREAM_RESUMING
  | CF_AGENT_STREAM_RESUME_ACK
  | CF_AGENT_OTHER

text \<open>
  What the client passes to \<^verbatim>\<open>agent.send\<close>: the object given to
  \<^verbatim>\<open>JSON.stringify\<close>, with its \<^verbatim>\<open>type\<close>, its optional \<^verbatim>\<open>id\<close> and the optional
  \<^verbatim>\<open>init.body\<close> payload.
\<close>

record client_frame =
  cf_type :: MessageType
  cf_id :: "string option"
  cf_init_body :: "string option"

definition chat_request :: "string \<Rightarrow> string \<Rightarrow> client_frame" where
  "chat_request rid bodyPayload =
     \<lparr> cf_type = CF_AGENT_USE_CHAT_REQUEST, cf_id = Some rid, cf_init_body = Some bodyPayload \<rparr>"

definition request_cancel :: "string \<Rightarrow> client_frame" where
  "request_cancel rid =
     \<lparr> cf_type = CF_AGENT_CHAT_REQUEST_CANCEL, cf_id = Some rid, cf_init_body = None \<rparr>"

definition resume_request :: client_frame where
  "resume_request =
     \<lparr> cf_type = CF_AGENT_STREAM_RESUME_REQUEST, cf_id = None, cf_init_body = None \<rparr>"

definition resume_ack :: "string \<Rightarrow> client_frame" where
  "resume_ack rid =
     \<lparr> cf_type = CF_AGENT_STREAM_RESUME_ACK, cf_id = Some rid, cf_init_body = None \<rparr>"

text \<open>
  What \<^verbatim>\<open>JSON.parse(event.data)\<close> yields for an inbound text frame: it throws
  (\<open>NotJson\<close>) or gives an object whose fields the listener reads. \<^verbatim>\<open>body\<close> may be
  absent (the listener reads it through \<^verbatim>\<open>?.\<close>); \<^verbatim>\<open>done\<close>, \<^verbatim>\<open>error\<close> and
  \<^verbatim>\<open>replay\<close> are read for truthiness.
\<close>

record server_frame =
  sf_type :: MessageType
  sf_id :: string
  sf_body :: "string option"
  sf_done :: bool
  sf_error :: bool
  sf_replay :: bool

datatype event_data = NotJson | Json server_frame

subsection \<open>JavaScript values the transport relies on\<close>

datatype js_error = JsError (err_name: string) (err_message: string)

definition new_Error :: "string \<Rightarrow> js_error" where
  "new_Error m = JsError ''Error'' m"

text \<open>\<^verbatim>\<open>const abortError = new Error("Aborted"); abortError.name = "AbortError"\<close>\<close>

definition abortError :: js_error where
  "abortError = JsError ''AbortError'' ''Aborted''"

definition typeError :: js_error where
  "typeError = JsError ''TypeError'' ''Invalid state''"

datatype 'a completion = Return 'a | Throw js_error

text \<open>
  \<^verbatim>\<open>String.prototype.trim\<close> on code units below 256: tab, line feed, vertical tab,
  form feed, carriage return, space and no-break space are white space.
\<close>

definition js_whitespace :: "char \<Rightarrow> bool" where
  "js_whitespace c \<longleftrightarrow> of_char c \<in> {9, 10, 11, 12, 13, 32, 160 :: nat}"

definition trim :: "string \<Rightarrow> string" where
  "trim s = rev (dropWhile js_whitespace (rev (dropWhile js_whitespace s)))"

text \<open>\<^verbatim>\<open>data.body || "Stream error"\<close>\<close>

definition body_or :: "string option \<Rightarrow> string \<Rightarrow> string" where
  "body_or b d = (case b of None \<Rightarrow> d | Some s \<Rightarrow> if s = [] then d else s)"

subsection \<open>Streams and their controllers\<close>

text \<open>
  A \<^verbatim>\<open>ReadableStream\<close> as its producer sees it. \<open>ctl_state\<close> is the stream's state
  (with a requested close counted as closed); \<open>delivered\<close> lists, in order, what the
  controller accepted for the consumer: chunks and the terminal signal.
\<close>

datatype ctl_state = Readable | Closed | Errored js_error

datatype 'c delivery = Chunk 'c | CloseSignal | ErrorSignal js_error

datatype signal = NoSignal | Armed | Fired

type_synonym conn = nat

record 'c stream =
  requestId :: string
  listens_on :: conn
  completed :: bool
  listening :: bool
  ctl_state :: ctl_state
  delivered :: "'c delivery list"
  resumed :: bool
  abort_signal :: signal

text \<open>
  The controller operations of the Streams standard: \<^verbatim>\<open>enqueue\<close> and \<^verbatim>\<open>close\<close> throw a
  \<^verbatim>\<open>TypeError\<close> unless the stream is readable and no close was requested;
  \<^verbatim>\<open>error\<close> does nothing unless the stream is readable, and never throws.
\<close>

definition controller_enqueue :: "'c \<Rightarrow> 'c stream \<Rightarrow> js_error + 'c stream" where
  "controller_enqueue x st =
     (if ctl_state st = Readable
      then Inr (st\<lparr>delivered := delivered st @ [Chunk x]\<rparr>)
      else Inl typeError)"

definition controller_close :: "'c stream \<Rightarrow> js_error + 'c stream" where
  "controller_close st =
     (if ctl_state st = Readable
      then Inr (st\<lparr>ctl_state := Closed, delivered := delivered st @ [CloseSignal]\<rparr>)
      else Inl typeError)"

definition controller_error :: "js_error \<Rightarrow> 'c stream \<Rightarrow> js_error + 'c stream" where
  "controller_error e st =
     (if ctl_state st = Readable
      then Inr (st\<lparr>ctl_state := Errored e, delivered := delivered st @ [ErrorSignal e]\<rparr>)
      else Inr st)"

text \<open>
  A stream's closures act on the stream and on the shared set of active request
  identifiers, which is optional (\<^verbatim>\<open>activeRequestIds?: Set<string>\<close>).
\<close>

type_synonym 'c scope = "'c stream \<times> string set option"

text \<open>
  \<^verbatim>\<open>finish(action)\<close>: the single cleanup helper. A throw of \<^verbatim>\<open>action\<close> is caught;
  \<^verbatim>\<open>abortController.abort()\<close> detaches the message listener.
\<close>

definition finish :: "('c stream \<Rightarrow> js_error + 'c stream) \<Rightarrow> 'c scope \<Rightarrow> 'c scope" where
  "finish action = (\<lambda>(st, ids).
     if completed st then (st, ids)
     else
       let st1 = st\<lparr>completed := True\<rparr>;
           st2 = (case action st1 of Inl e \<Rightarrow> st1 | Inr st' \<Rightarrow> st');
           ids' = map_option (\<lambda>A. A - {requestId st}) ids
       in (st2\<lparr>listening := False\<rparr>, ids'))"

text \<open>
  The \<^verbatim>\<open>onMessage\<close> listener, the same in \<^verbatim>\<open>sendMessages\<close> and in
  \<^verbatim>\<open>_createResumeStream\<close>. \<open>JSON_parse\<close> stands for \<^verbatim>\<open>JSON.parse\<close> on a chunk
  body: \<open>None\<close> when it throws. The body is used when \<^verbatim>\<open>data.body?.trim()\<close> is
  truthy: present, and not empty once trimmed. The inner \<^verbatim>\<open>try\<close> swallows a failed
  parse and a failed enqueue alike; the outer one swallows everything else.
\<close>

definition enqueue_body :: "(string \<Rightarrow> 'c option) \<Rightarrow> string option \<Rightarrow> 'c stream \<Rightarrow> 'c stream" where
  "enqueue_body JSON_parse b st =
     (case b of
        None \<Rightarrow> st
      | Some s \<Rightarrow>
          if trim s = [] then st
          else (case JSON_parse s of
                  None \<Rightarrow> st
                | Some chunk \<Rightarrow>
                    (case controller_enqueue chunk st of Inl e \<Rightarrow> st | Inr st' \<Rightarrow> st')))"

definition onMessage :: "(string \<Rightarrow> 'c option) \<Rightarrow> event_data \<Rightarrow> 'c scope \<Rightarrow> 'c scope" where
  "onMessage JSON_parse ev = (\<lambda>(st, ids).
     case ev of
       NotJson \<Rightarrow> (st, ids)
     | Json d \<Rightarrow>
         if sf_type d \<noteq> CF_AGENT_USE_CHAT_RESPONSE then (st, ids)
         else if sf_id d \<noteq> requestId st then (st, ids)
         else if sf_error d
         then finish (controller_error (new_Error (body_or (sf_body d) ''Stream error''))) (st, ids)
         else
           let st1 = enqueue_body JSON_parse (sf_body d) st
           in if sf_done d then finish controller_close (st1, ids) else (st1, ids))"

subsection \<open>The transport and its environment\<close>

text \<open>
  A pending \<^verbatim>\<open>reconnectToStream\<close> call: its \<^verbatim>\<open>resolved\<close> flag and the value its
  promise was resolved with (\<open>None\<close> while pending, \<open>Some None\<close> for \<^verbatim>\<open>null\<close>,
  \<open>Some (Some i)\<close> for stream \<open>i\<close>).
\<close>

record resume_call =
  resolved :: bool
  settled :: "nat option option"

text \<open>
  The transport's fields (\<open>agent\<close>, \<open>activeRequestIds\<close>, \<open>resumeResolver\<close>: the call
  whose closure sits in \<^verbatim>\<open>_resumeResolver\<close>) and what surrounds it: which connections
  throw on \<^verbatim>\<open>send\<close>, everything transmitted so far, the streams and resume calls
  created so far, and the timer queue with its clock in milliseconds.
\<close>

record 'c world =
  agent :: conn
  activeRequestIds :: "string set option"
  resumeResolver :: "nat option"
  send_throws :: "conn \<Rightarrow> js_error option"
  wire :: "(conn \<times> client_frame) list"
  streams :: "nat \<Rightarrow> 'c stream"
  nstreams :: nat
  calls :: "nat \<Rightarrow> resume_call"
  ncalls :: nat
  clock :: nat
  timers :: "(nat \<times> nat) list"

definition agent_send :: "conn \<Rightarrow> client_frame \<Rightarrow> 'c world \<Rightarrow> js_error + 'c world" where
  "agent_send c f w =
     (case send_throws w c of
        Some e \<Rightarrow> Inl e
      | None \<Rightarrow> Inr (w\<lparr>wire := wire w @ [(c, f)]\<rparr>))"

text \<open>Run a closure of stream \<open>i\<close> against the world.\<close>

definition on_stream :: "nat \<Rightarrow> ('c scope \<Rightarrow> 'c scope) \<Rightarrow> 'c world \<Rightarrow> 'c world" where
  "on_stream i f w =
     (let (st, ids) = f (streams w i, activeRequestIds w)
      in w\<lparr>streams := (streams w)(i := st), activeRequestIds := ids\<rparr>)"

text \<open>
  \<^verbatim>\<open>onAbort\<close> of \<^verbatim>\<open>sendMessages\<close>: the cancel frame goes to the agent captured when the
  request was sent, a throw of \<^verbatim>\<open>send\<close> is ignored, then the stream is errored with
  the abort error through \<^verbatim>\<open>finish\<close>.
\<close>

definition onAbort :: "nat \<Rightarrow> 'c world \<Rightarrow> 'c world" where
  "onAbort i w =
     (let st = streams w i
      in if completed st then w
         else
           let w1 = (case agent_send (listens_on st) (request_cancel (requestId st)) w of
                       Inl e \<Rightarrow> w | Inr w' \<Rightarrow> w')
           in on_stream i (finish (controller_error abortError)) w1)"

definition new_stream :: "string \<Rightarrow> conn \<Rightarrow> bool \<Rightarrow> signal \<Rightarrow> 'c stream" where
  "new_stream rid c r sg =
     \<lparr> requestId = rid, listens_on = c, completed = False, listening = True,
       ctl_state = Readable, delivered = [], resumed = r, abort_signal = sg \<rparr>"

text \<open>
  \<^verbatim>\<open>sendMessages\<close>. \<open>rid\<close> is the identifier \<^verbatim>\<open>nanoid(8)\<close> returned and
  \<open>bodyPayload\<close> the serialized body; \<open>sig\<close> is the caller's abort signal: absent, or
  present and already aborted or not. The result is the index of the returned stream, or
  the error thrown by the final \<^verbatim>\<open>agent.send\<close>, which nothing catches.
\<close>

definition sendMessages ::
  "string \<Rightarrow> string \<Rightarrow> bool option \<Rightarrow> 'c world \<Rightarrow> nat completion \<times> 'c world" where
  "sendMessages rid bodyPayload sig w =
     (let w1 = w\<lparr>activeRequestIds := map_option (insert rid) (activeRequestIds w)\<rparr>;
          c = agent w1;
          i = nstreams w1;
          sg = (case sig of None \<Rightarrow> NoSignal | Some aborted \<Rightarrow> if aborted then Fired else Armed);
          w2 = w1\<lparr>streams := (streams w1)(i := new_stream rid c False sg), nstreams := Suc i\<rparr>;
          w3 = (if sig = Some True then onAbort i w2 else w2)
      in case agent_send c (chat_request rid bodyPayload) w3 of
           Inl e \<Rightarrow> (Throw e, w3)
         | Inr w4 \<Rightarrow> (Return i, w4))"

text \<open>The caller's abort signal fires: its one-shot listener runs \<^verbatim>\<open>onAbort\<close>.\<close>

definition abort_fires :: "nat \<Rightarrow> 'c world \<Rightarrow> 'c world" where
  "abort_fires i w =
     (if i < nstreams w \<and> abort_signal (streams w i) = Armed
      then onAbort i (w\<lparr>streams := (streams w)(i := (streams w i)\<lparr>abort_signal := Fired\<rparr>)\<rparr>)
      else w)"

text \<open>
  The \<^verbatim>\<open>cancel()\<close> method of a stream's underlying source: \<^verbatim>\<open>onAbort()\<close> for a
  stream of \<^verbatim>\<open>sendMessages\<close>, \<^verbatim>\<open>finish(() => {})\<close> for a resumed one.
\<close>

definition source_cancel :: "nat \<Rightarrow> 'c world \<Rightarrow> 'c world" where
  "source_cancel i w =
     (if resumed (streams w i) then on_stream i (finish Inr) w else onAbort i w)"

text \<open>
  The consumer cancels stream \<open>i\<close> (\<^verbatim>\<open>stream.cancel()\<close>). The platform follows
  the Streams standard (\<^verbatim>\<open>ReadableStreamCancel\<close>): a stream that is already closed or
  errored is left alone and its source is not called; a readable one is closed first
  (\<^verbatim>\<open>ReadableStreamClose\<close>), and only then the source's \<^verbatim>\<open>cancel()\<close> runs.
\<close>

definition stream_cancel :: "nat \<Rightarrow> 'c world \<Rightarrow> 'c world" where
  "stream_cancel i w =
     (if i < nstreams w \<and> ctl_state (streams w i) = Readable
      then source_cancel i (w\<lparr>streams := (streams w)(i := (streams w i)\<lparr>ctl_state := Closed\<rparr>)\<rparr>)
      else w)"

text \<open>
  A text frame arrives on connection \<open>c\<close>: every listener still attached to \<open>c\<close> runs,
  in the order of attachment.
\<close>

definition deliver_to :: "(string \<Rightarrow> 'c option) \<Rightarrow> conn \<Rightarrow> event_data \<Rightarrow> nat \<Rightarrow> 'c world \<Rightarrow> 'c world" where
  "deliver_to JSON_parse c ev i w =
     (if listening (streams w i) \<and> listens_on (streams w i) = c
      then on_stream i (onMessage JSON_parse ev) w
      else w)"

definition deliver :: "(string \<Rightarrow> 'c option) \<Rightarrow> conn \<Rightarrow> event_data \<Rightarrow> 'c world \<Rightarrow> 'c world" where
  "deliver JSON_parse c ev w = fold (deliver_to JSON_parse c ev) [0..<nstreams w] w"

text \<open>
  \<^verbatim>\<open>done(value)\<close> of the \<open>k\<close>-th \<^verbatim>\<open>reconnectToStream\<close> call: at most once it clears
  the resolver slot, clears the call's timer and resolves the promise.
\<close>

definition done_call :: "nat \<Rightarrow> nat option \<Rightarrow> 'c world \<Rightarrow> 'c world" where
  "done_call k v w =
     (if resolved (calls w k) then w
      else w\<lparr>calls := (calls w)(k := \<lparr> resolved = True, settled = Some v \<rparr>),
             resumeResolver := None,
             timers := filter (\<lambda>(t, k'). k' \<noteq> k) (timers w)\<rparr>)"

text \<open>
  \<^verbatim>\<open>_createResumeStream\<close>: the agent is read when the stream is created, and the
  listener attaches to it.
\<close>

definition createResumeStream :: "string \<Rightarrow> 'c world \<Rightarrow> nat \<times> 'c world" where
  "createResumeStream rid w =
     (let i = nstreams w
      in (i, w\<lparr>streams := (streams w)(i := new_stream rid (agent w) True NoSignal),
               nstreams := Suc i\<rparr>))"

text \<open>
  The closure that the \<open>k\<close>-th \<^verbatim>\<open>reconnectToStream\<close> call stores in
  \<^verbatim>\<open>_resumeResolver\<close>. Its \<^verbatim>\<open>this.agent.send\<close> is not inside a \<^verbatim>\<open>try\<close>.
\<close>

definition resume_closure :: "nat \<Rightarrow> string \<Rightarrow> 'c world \<Rightarrow> unit completion \<times> 'c world" where
  "resume_closure k rid w =
     (let w1 = w\<lparr>activeRequestIds := map_option (insert rid) (activeRequestIds w)\<rparr>
      in case agent_send (agent w1) (resume_ack rid) w1 of
           Inl e \<Rightarrow> (Throw e, w1)
         | Inr w2 \<Rightarrow>
             let (i, w3) = createResumeStream rid w2
             in (Return (), done_call k (Some i) w3))"

definition handleStreamResuming :: "string \<Rightarrow> 'c world \<Rightarrow> bool completion \<times> 'c world" where
  "handleStreamResuming rid w =
     (case resumeResolver w of
        None \<Rightarrow> (Return False, w)
      | Some k \<Rightarrow>
          (case resume_closure k rid w of
             (Throw e, w') \<Rightarrow> (Throw e, w')
           | (Return u, w') \<Rightarrow> (Return True, w')))"

text \<open>
  \<^verbatim>\<open>reconnectToStream\<close>: a new call takes the resolver slot, the resume request is
  sent with a throw ignored, and the timer is set 5000 ms ahead. The result is the index
  of the call, whose promise is still pending.
\<close>

definition resume_timeout :: nat where
  "resume_timeout = 5000"

definition reconnectToStream :: "'c world \<Rightarrow> nat \<times> 'c world" where
  "reconnectToStream w =
     (let k = ncalls w;
          w1 = w\<lparr>calls := (calls w)(k := \<lparr> resolved = False, settled = None \<rparr>),
                 ncalls := Suc k,
                 resumeResolver := Some k\<rparr>;
          w2 = (case agent_send (agent w1) resume_request w1 of Inl e \<Rightarrow> w1 | Inr w' \<Rightarrow> w')
      in (k, w2\<lparr>timers := timers w2 @ [(clock w2 + resume_timeout, k)]\<rparr>))"

text \<open>
  Time passes: the clock moves on by \<open>dt\<close> milliseconds and every timer that is due
  runs its callback \<^verbatim>\<open>() => done(null)\<close>, in the order the timers were set.
\<close>

definition advance :: "nat \<Rightarrow> 'c world \<Rightarrow> 'c world" where
  "advance dt w =
     (let t = clock w + dt;
          due = filter (\<lambda>(d, k). d \<le> t) (timers w);
          w1 = w\<lparr>clock := t, timers := filter (\<lambda>(d, k). \<not> d \<le> t) (timers w)\<rparr>
      in fold (\<lambda>(d, k). done_call k None) due w1)"

text \<open>The hook replaces the connection: \<^verbatim>\<open>transport.agent = newAgent\<close>.\<close>

definition set_agent :: "conn \<Rightarrow> 'c world \<Rightarrow> 'c world" where
  "set_agent c w = w\<lparr>agent := c\<rparr>"

text \<open>A transport fresh from its constructor, on connection \<open>c\<close>.\<close>

definition init_world :: "conn \<Rightarrow> string set option \<Rightarrow> (conn \<Rightarrow> js_error option) \<Rightarrow> 'c world" where
  "init_world c ids thr =
     \<lparr> agent = c, activeRequestIds = ids, resumeResolver = None, send_throws = thr,
       wire = [], streams = (\<lambda>i. new_stream [] c False NoSignal), nstreams = 0,
       calls = (\<lambda>k. \<lparr> resolved = True, settled = Some None \<rparr>), ncalls = 0,
       clock = 0, timers = [] \<rparr>"

subsection \<open>Events and runs\<close>

text \<open>
  Everything that can happen to a transport, one event at a time (each handler runs to
  completion): a text frame arrives on a connection, a caller's abort signal fires, a
  consumer cancels a stream, \<^verbatim>\<open>reconnectToStream\<close> or \<^verbatim>\<open>sendMessages\<close> is called,
  the dispatcher hands over a \<^verbatim>\<open>CF_AGENT_STREAM_RESUMING\<close> notification, time passes,
  the hook replaces the connection, or a connection starts or stops throwing on
  \<^verbatim>\<open>send\<close>.
\<close>

datatype event =
    Deliver conn event_data
  | AbortFires nat
  | StreamCancel nat
  | Reconnect
  | StreamResuming string
  | Advance nat
  | SetAgent conn
  | SendMessages string string "bool option"
  | SetSendThrows conn "js_error option"

definition step :: "(string \<Rightarrow> 'c option) \<Rightarrow> event \<Rightarrow> 'c world \<Rightarrow> 'c world" where
  "step JSON_parse e w =
     (case e of
        Deliver c ev \<Rightarrow> deliver JSON_parse c ev w
      | AbortFires i \<Rightarrow> abort_fires i w
      | StreamCancel i \<Rightarrow> stream_cancel i w
      | Reconnect \<Rightarrow> snd (reconnectToStream w)
      | StreamResuming rid \<Rightarrow> snd (handleStreamResuming rid w)
      | Advance dt \<Rightarrow> advance dt w
      | SetAgent c \<Rightarrow> set_agent c w
      | SendMessages rid bodyPayload sig \<Rightarrow> snd (sendMessages rid bodyPayload sig w)
      | SetSendThrows c e \<Rightarrow> w\<lparr>send_throws := (send_throws w)(c := e)\<rparr>)"

definition run :: "(string \<Rightarrow> 'c option) \<Rightarrow> event list \<Rightarrow> 'c world \<Rightarrow> 'c world" where
  "run JSON_parse es w = fold (step JSON_parse) es w"

text \<open>The time that passes during a list of events.\<close>

fun elapsed :: "event list \<Rightarrow> nat" where
  "elapsed [] = 0"
| "elapsed (Advance dt # es) = dt + elapsed es"
| "elapsed (e # es) = elapsed es"

fun is_resuming :: "event \<Rightarrow> bool" where
  "is_resuming (StreamResuming rid) = True"
| "is_resuming e = False"

text \<open>
  The chunk a frame carries, if any: its body must be present, not blank, and parse.
\<close>

definition chunk_of :: "(string \<Rightarrow> 'c option) \<Rightarrow> server_frame \<Rightarrow> 'c option" where
  "chunk_of JSON_parse f =
     (case sf_body f of
        None \<Rightarrow> None
      | Some s \<Rightarrow> if trim s = [] then None else JSON_parse s)"

definition chunks_of :: "(string \<Rightarrow> 'c option) \<Rightarrow> server_frame list \<Rightarrow> 'c list" where
  "chunks_of JSON_parse fs = List.map_filter (chunk_of JSON_parse) fs"



fun cancels :: "nat \<Rightarrow> event \<Rightarrow> bool" where
  "cancels i (AbortFires j) = (j = i)"
| "cancels i (StreamCancel j) = (j = i)"
| "cancels i e = False"

text \<open>
  What one event does to one stream, seen from that stream alone: its listener if the
  frame arrives on its connection, its abort handler, its cancel callback.
\<close>

definition hears :: "(string \<Rightarrow> 'c option) \<Rightarrow> conn \<Rightarrow> event_data \<Rightarrow> 'c stream \<Rightarrow> 'c stream" where
  "hears JSON_parse c ev st =
     (if listening st \<and> listens_on st = c then fst (onMessage JSON_parse ev (st, None)) else st)"

definition aborts :: "'c stream \<Rightarrow> 'c stream" where
  "aborts st = fst (finish (controller_error abortError) (st, None))"

definition stream_view :: "(string \<Rightarrow> 'c option) \<Rightarrow> nat \<Rightarrow> event \<Rightarrow> 'c stream \<Rightarrow> 'c stream" where
  "stream_view JSON_parse i e st =
     (case e of
        Deliver c ev \<Rightarrow> hears JSON_parse c ev st
      | AbortFires j \<Rightarrow>
          if j = i \<and> abort_signal st = Armed then aborts (st\<lparr>abort_signal := Fired\<rparr>) else st
      | StreamCancel j \<Rightarrow>
          if j = i \<and> ctl_state st = Readable
          then (if resumed st then fst (finish Inr (st\<lparr>ctl_state := Closed\<rparr>, None))
                else aborts (st\<lparr>ctl_state := Closed\<rparr>))
          else st
      | _ \<Rightarrow> st)"

text \<open>
  A stream is live while its listener is attached and no terminal path has run; it has
  ended once \<^verbatim>\<open>finish\<close> ran and the consumer's side is no longer readable.
\<close>

definition live :: "'c stream \<Rightarrow> bool" where
  "live st \<longleftrightarrow> listening st \<and> \<not> completed st \<and> ctl_state st = Readable"

definition ended :: "'c stream \<Rightarrow> bool" where
  "ended st \<longleftrightarrow> completed st \<and> ctl_state st \<noteq> Readable"

text \<open>A frame is addressed to a stream when it is a chat response with the stream's identifier.\<close>

definition for_stream :: "'c stream \<Rightarrow> server_frame \<Rightarrow> bool" where
  "for_stream st f \<longleftrightarrow> sf_type f = CF_AGENT_USE_CHAT_RESPONSE \<and> sf_id f = requestId st"

text \<open>
  A body that yields no chunk: absent, empty or white space only, or rejected by
  \<^verbatim>\<open>JSON.parse\<close>.
\<close>

definition no_chunk_body :: "(string \<Rightarrow> 'c option) \<Rightarrow> string option \<Rightarrow> bool" where
  "no_chunk_body JSON_parse b =
     (case b of None \<Rightarrow> True | Some s \<Rightarrow> list_all js_whitespace s \<or> JSON_parse s = None)"

subsection \<open>A concrete transport for the examples\<close>

text \<open>
  A transport on connection 0 with an empty set of active identifiers and connections
  that accept every \<^verbatim>\<open>send\<close>; chunks are strings, and a body parses when it starts
  with an opening brace.
\<close>

definition fresh_world :: "string world" where
  "fresh_world = init_world 0 (Some {}) (\<lambda>c. None)"

definition demo_parse :: "string \<Rightarrow> string option" where
  "demo_parse s = (case s of [] \<Rightarrow> None | c # cs \<Rightarrow> if c = CHR ''{'' then Some s else None)"

definition response :: "string \<Rightarrow> string \<Rightarrow> bool \<Rightarrow> server_frame" where
  "response rid body dn =
     \<lparr> sf_type = CF_AGENT_USE_CHAT_RESPONSE, sf_id = rid, sf_body = Some body,
       sf_done = dn, sf_error = False, sf_replay = False \<rparr>"

definition closed_error :: js_error where
  "closed_error = JsError ''Error'' ''WebSocket closed''"

subsection \<open>States of a resume call\<close>

text \<open>
  A \<^verbatim>\<open>reconnectToStream\<close> call \<open>k\<close> is awaiting its notification while its promise is
  pending and its timer, due at \<open>T\<close>, is set; it has timed out once the promise was
  resolved with \<^verbatim>\<open>null\<close>. The resolver slot is sound when the call it names, if any,
  is still pending.
\<close>

definition awaiting :: "nat \<Rightarrow> nat \<Rightarrow> 'c world \<Rightarrow> bool" where
  "awaiting k T w \<longleftrightarrow>
     k < ncalls w \<and> \<not> resolved (calls w k) \<and> settled (calls w k) = None \<and> (T, k) \<in> set (timers w)"

definition timed_out :: "nat \<Rightarrow> 'c world \<Rightarrow> bool" where
  "timed_out k w \<longleftrightarrow> k < ncalls w \<and> resolved (calls w k) \<and> settled (calls w k) = Some None"

definition slot_ok :: "'c world \<Rightarrow> bool" where
  "slot_ok w =
     (case resumeResolver w of
        None \<Rightarrow> True
      | Some k \<Rightarrow> k < ncalls w \<and> \<not> resolved (calls w k) \<and> settled (calls w k) = None)"

fun is_reconnect :: "event \<Rightarrow> bool" where
  "is_reconnect Reconnect = True"
| "is_reconnect e = False"


section \<open>Properties of reconciliation and persistence\<close>

lemma find_ascending_least:
  "sorted xs \<Longrightarrow> List.find P xs = Some (x::nat) \<Longrightarrow>
     x \<in> set xs \<and> P x \<and> (\<forall>y\<in>set xs. y < x \<longrightarrow> \<not> P y)"
proof (induction xs)
  case Nil
  then show ?case by simp
next
  case (Cons a xs)
  show ?case
  proof (cases "P a")
    case True
    with Cons.prems show ?thesis by auto
  next
    case False
    with Cons.prems have "sorted xs" and "List.find P xs = Some x" by auto
    with Cons.IH have "x \<in> set xs \<and> P x \<and> (\<forall>y\<in>set xs. y < x \<longrightarrow> \<not> P y)" by blast
    with False show ?thesis by auto
  qed
qed

lemma sorted_unclaimed: "sorted (unclaimed server claimed)"
  by (simp add: unclaimed_def sorted_wrt_filter)

lemma set_unclaimed: "set (unclaimed server claimed) = {j. j < length server \<and> j \<notin> claimed}"
  by (auto simp: unclaimed_def)

lemma find_content_least:
  assumes "find_content server claimed c = Some j"
  shows "j < length server \<and> j \<notin> claimed \<and> same_content (server ! j) c \<and>
         (\<forall>i<j. i \<notin> claimed \<longrightarrow> \<not> same_content (server ! i) c)"
proof -
  from assms have f: "List.find (\<lambda>j. same_content (server ! j) c) (unclaimed server claimed) = Some j"
    by (simp add: find_content_def split: if_splits)
  from find_ascending_least [OF sorted_unclaimed f]
  show ?thesis by (auto simp: set_unclaimed)
qed

lemma find_content_total:
  assumes "msg_role c = Assistant" "j < length server" "j \<notin> claimed" "same_content (server ! j) c"
  shows "find_content server claimed c \<noteq> None"
  using assms by (auto simp: find_content_def find_None_iff set_unclaimed)

lemma length_exact_pass: "length (fst (exact_pass server client claimed)) = length client"
proof (induction client arbitrary: claimed)
  case Nil
  show ?case by simp
next
  case (Cons c cs)
  show ?case
  proof (cases "find_exact server claimed c")
    case None
    with Cons.IH [of claimed] show ?thesis
      by (cases "exact_pass server cs claimed") simp
  next
    case (Some j)
    with Cons.IH [of "insert j claimed"] show ?thesis
      by (cases "exact_pass server cs (insert j claimed)") simp
  qed
qed

lemma length_content_pass: "length (content_pass server xs claimed) = length xs"
  by (induction server xs claimed rule: content_pass.induct) (auto split: option.splits)

lemma length_final_ids: "length (final_ids server client) = length client"
  using length_exact_pass [of server client "{}"]
  by (auto simp: final_ids_def length_content_pass split: prod.splits)

lemma ids_upsert: "msg_id ` set (upsert m rows) = insert (msg_id m) (msg_id ` set rows)"
  by (auto simp: upsert_def)

lemma ids_fold_upsert:
  "msg_id ` set (fold upsert ms rows) = msg_id ` set ms \<union> msg_id ` set rows"
proof (induction ms arbitrary: rows)
  case Nil
  show ?case by simp
next
  case (Cons m ms)
  from Cons.IH [of "upsert m rows"] show ?case by (simp add: ids_upsert)
qed

lemma ids_relabel:
  "length fin = length client \<Longrightarrow>
     map msg_id (map (\<lambda>(c, i). c\<lparr>msg_id := i\<rparr>) (zip client fin)) = fin"
  by (induction client fin rule: list_induct2') auto

lemma ids_final_messages:
  "map msg_id (final_messages (reconcile server client)) = final_ids server client"
  using ids_relabel [of "final_ids server client" client] length_final_ids [of server client]
  by (simp add: reconcile_def Let_def)

lemma ids_filter: "msg_id ` set (filter (\<lambda>m. msg_id m \<notin> D) xs) = msg_id ` set xs - D"
  by auto

lemma ids_persistMessages:
  "msg_id ` set (persistMessages rows client) =
     (set (final_ids rows client) \<union> msg_id ` set rows)
       - set (stale_ids (map msg_id rows) (final_ids rows client))"
proof -
  have d: "to_delete (reconcile rows client) = stale_ids (map msg_id rows) (final_ids rows client)"
    by (simp add: reconcile_def Let_def)
  have f: "msg_id ` set (final_messages (reconcile rows client)) = set (final_ids rows client)"
    using ids_final_messages [of rows client] by (metis set_map)
  show ?thesis
    unfolding persistMessages_def Let_def ids_filter ids_fold_upsert d f ..
qed

lemma deleted_rows:
  "msg_id ` set rows - msg_id ` set (persistMessages rows client) =
     (if set (final_ids rows client) \<subseteq> msg_id ` set rows
      then msg_id ` set rows - set (final_ids rows client)
      else {})"
  by (auto simp: ids_persistMessages stale_ids_def)

lemma final_rows_kept:
  "set (final_ids rows client) \<subseteq> msg_id ` set (persistMessages rows client)"
  by (auto simp: ids_persistMessages stale_ids_def)

lemma exact_pass_drift:
  "exact_pass server_sure client_drift {} = ([Some 0, Some 3, Some 2, None], {0, 2, 3})"
proof -
  have "exact_pass server_sure client_drift {} =
      ([Some 0, Some 3, Some 2, None], {Suc (Suc 0), Suc (Suc (Suc 0)), 0})"
    by (simp add: server_sure_def client_drift_def U1_def U2_def sure_def find_exact_def
        unclaimed_def upt_rec)
  moreover have "{Suc (Suc 0), Suc (Suc (Suc 0)), 0} = {0, 2, 3::nat}"
    by (auto simp: numeral_2_eq_2 numeral_3_eq_3)
  ultimately show ?thesis by simp
qed

lemma final_ids_fresh:
  "final_ids server_sure client_fresh = [''u1'', ''assistant_s1'', ''u2'', ''assistant_s2'']"
  by code_simp

lemma final_ids_drift:
  "final_ids server_sure client_drift = [''u1'', ''assistant_s2'', ''u2'', ''assistant_s1'']"
  by code_simp

lemma persist_fresh:
  "map msg_id (persistMessages server_sure client_fresh) =
     [''u1'', ''assistant_s1'', ''u2'', ''assistant_s2'']"
  by code_simp

lemma persist_drift:
  "map msg_id (persistMessages server_sure client_drift) =
     [''u1'', ''assistant_s1'', ''u2'', ''assistant_s2'']"
  by code_simp

lemma no_deletion_fresh: "to_delete (reconcile server_sure client_fresh) = []"
  by code_simp

lemma no_deletion_drift: "to_delete (reconcile server_sure client_drift) = []"
  by code_simp

text \<open>
  Claim C1. Pass 2 looks at every server index that is still unclaimed, in ascending
  original order, and the earliest one with equal role and content wins: a hit \<open>j\<close> is
  unclaimed and matching, no unclaimed index before it matches, and a hit exists whenever
  any unclaimed index matches an assistant message. For the stored conversation
  \<open>[U1, S1:"Sure", U2, S2:"Sure"]\<close> and the client list
  \<open>[U1, X1:"Sure", U2, X2:"Sure"]\<close> the final identifiers are \<open>[U1, S1, U2, S2]\<close>,
  nothing is deleted and the four stored rows are distinct. For the client list
  \<open>[U1, S2:"Sure", U2, X1:"Sure"]\<close> pass 1 claims index 3 for \<open>S2\<close> out of position,
  \<open>X1\<close> still matches the earlier index 1, the final identifiers are
  \<open>[U1, S2, U2, S1]\<close>, and four rows are stored, none under a client identifier.
\<close>

theorem pass2_scans_every_unclaimed_index:
  "(find_content server claimed c = Some j \<longrightarrow>
      j < length server \<and> j \<notin> claimed \<and> same_content (server ! j) c \<and>
      (\<forall>i<j. i \<notin> claimed \<longrightarrow> \<not> same_content (server ! i) c))
   \<and> (msg_role c = Assistant \<and> j < length server \<and> j \<notin> claimed \<and>
        same_content (server ! j) c \<longrightarrow> find_content server claimed c \<noteq> None)
   \<and> final_ids server_sure client_fresh = [''u1'', ''assistant_s1'', ''u2'', ''assistant_s2'']
   \<and> to_delete (reconcile server_sure client_fresh) = []
   \<and> map msg_id (persistMessages server_sure client_fresh) =
        [''u1'', ''assistant_s1'', ''u2'', ''assistant_s2'']
   \<and> exact_pass server_sure client_drift {} = ([Some 0, Some 3, Some 2, None], {0, 2, 3})
   \<and> find_content server_sure {0, 2, 3} (sure ''client_x1'') = Some 1
   \<and> final_ids server_sure client_drift = [''u1'', ''assistant_s2'', ''u2'', ''assistant_s1'']
   \<and> to_delete (reconcile server_sure client_drift) = []
   \<and> map msg_id (persistMessages server_sure client_drift) =
        [''u1'', ''assistant_s1'', ''u2'', ''assistant_s2'']"
proof -
  have hit: "find_content server_sure {0, 2, 3} (sure ''client_x1'') = Some 1"
    by (simp add: find_content_def server_sure_def sure_def U1_def U2_def unclaimed_def
        same_content_def upt_rec)
  show ?thesis
    using find_content_least [of server claimed c j] find_content_total [of c j server claimed]
      final_ids_fresh no_deletion_fresh persist_fresh exact_pass_drift hit final_ids_drift
      no_deletion_drift persist_drift
    by blast
qed

theorem pass2_scans_every_unclaimed_index_witness:
  "find_content server_sure {0, 2, 3} (sure ''client_x1'') = Some 1
   \<and> (1::nat) < length server_sure \<and> (1::nat) \<notin> {0, 2, 3}
   \<and> same_content (server_sure ! 1) (sure ''client_x1'')"
  using pass2_scans_every_unclaimed_index [of server_sure "{0, 2, 3}" "sure ''client_x1''" 1]
  by blast

text \<open>
  Claim C2. The rows that persisting removes are exactly the server identifiers absent
  from the final list when every final identifier is a server identifier, and none at all
  otherwise; every final identifier is stored either way. With three stored messages, a
  client list holding the first two removes the third; the first two plus a message under
  an identifier the server never had removes nothing, the third row included.
\<close>

theorem deletion_gated_by_subset:
  "msg_id ` set rows - msg_id ` set (persistMessages rows client) =
     (if set (final_ids rows client) \<subseteq> msg_id ` set rows
      then msg_id ` set rows - set (final_ids rows client)
      else {})
   \<and> set (final_ids rows client) \<subseteq> msg_id ` set (persistMessages rows client)
   \<and> map msg_id (persistMessages server_three client_trim) = [''u1'', ''assistant_s1'']
   \<and> map msg_id (persistMessages server_three client_append) =
        [''u1'', ''assistant_s1'', ''u2'', ''u3'']"
proof -
  have "map msg_id (persistMessages server_three client_trim) = [''u1'', ''assistant_s1'']"
    by code_simp
  moreover have "map msg_id (persistMessages server_three client_append) =
      [''u1'', ''assistant_s1'', ''u2'', ''u3'']"
    by code_simp
  ultimately show ?thesis
    using deleted_rows [of rows client] final_rows_kept [of rows client] by blast
qed

theorem deletion_gated_by_subset_witness:
  "set (final_ids server_three client_trim) \<subseteq> msg_id ` set server_three
   \<and> msg_id ` set server_three - msg_id ` set (persistMessages server_three client_trim) = {''u2''}
   \<and> \<not> set (final_ids server_three client_append) \<subseteq> msg_id ` set server_three
   \<and> msg_id ` set server_three - msg_id ` set (persistMessages server_three client_append) = {}"
proof -
  have t: "final_ids server_three client_trim = [''u1'', ''assistant_s1'']"
    by code_simp
  have a: "final_ids server_three client_append = [''u1'', ''assistant_s1'', ''u3'']"
    by code_simp
  have s: "msg_id ` set server_three = {''u1'', ''assistant_s1'', ''u2''}"
    by (simp add: server_three_def U1_def U2_def sure_def)
  from deletion_gated_by_subset [of server_three client_trim]
  have "msg_id ` set server_three - msg_id ` set (persistMessages server_three client_trim) =
     (if set (final_ids server_three client_trim) \<subseteq> msg_id ` set server_three
      then msg_id ` set server_three - set (final_ids server_three client_trim) else {})"
    by blast
  then have 1: "msg_id ` set server_three - msg_id ` set (persistMessages server_three client_trim)
      = {''u2''}"
    unfolding t s by auto
  from deletion_gated_by_subset [of server_three client_append]
  have "msg_id ` set server_three - msg_id ` set (persistMessages server_three client_append) =
     (if set (final_ids server_three client_append) \<subseteq> msg_id ` set server_three
      then msg_id ` set server_three - set (final_ids server_three client_append) else {})"
    by blast
  then have 2: "msg_id ` set server_three - msg_id ` set (persistMessages server_three client_append)
      = {}"
    unfolding a s by auto
  show ?thesis using 1 2 unfolding t a s by auto
qed

section \<open>Properties of the transport\<close>

subsection \<open>One stream seen through the shared world\<close>

lemma fst_finish: "fst (finish a (st, ids)) = fst (finish a (st, None))"
  by (simp add: finish_def Let_def)

lemma snd_finish:
  "snd (finish a (st, ids)) = (if completed st then ids else map_option (\<lambda>A. A - {requestId st}) ids)"
  by (simp add: finish_def Let_def)

lemma fst_onMessage: "fst (onMessage P ev (st, ids)) = fst (onMessage P ev (st, None))"
  by (cases ev) (simp_all add: onMessage_def Let_def fst_finish [of _ _ ids])

lemma streams_on_stream:
  "streams (on_stream i f w) j = (if j = i then fst (f (streams w i, activeRequestIds w)) else streams w j)"
  by (simp add: on_stream_def split: prod.splits)

lemma on_stream_shape:
  "\<exists>S A. on_stream i f w = w\<lparr>streams := S, activeRequestIds := A\<rparr>"
  by (auto simp: on_stream_def split: prod.splits)

lemma streams_deliver_to:
  "streams (deliver_to P c ev i w) j = (if j = i then hears P c ev (streams w i) else streams w j)"
  using fst_onMessage [of P ev "streams w i" "activeRequestIds w"]
  by (simp add: deliver_to_def hears_def streams_on_stream)

lemma deliver_to_shape:
  "\<exists>S A. deliver_to P c ev i w = w\<lparr>streams := S, activeRequestIds := A\<rparr>"
proof (cases "listening (streams w i) \<and> listens_on (streams w i) = c")
  case True
  then show ?thesis using on_stream_shape [of i "onMessage P ev" w] by (simp add: deliver_to_def)
next
  case False
  have "w = w\<lparr>streams := streams w, activeRequestIds := activeRequestIds w\<rparr>" by simp
  with False show ?thesis unfolding deliver_to_def by (metis (full_types))
qed

lemma fold_deliver_to_shape:
  "\<exists>S A. fold (deliver_to P c ev) is w = w\<lparr>streams := S, activeRequestIds := A\<rparr>"
proof (induction "is" arbitrary: w)
  case Nil
  have "w = w\<lparr>streams := streams w, activeRequestIds := activeRequestIds w\<rparr>" by simp
  then show ?case by (metis fold_simps(1))
next
  case (Cons i "is")
  obtain S A where 1: "deliver_to P c ev i w = w\<lparr>streams := S, activeRequestIds := A\<rparr>"
    using deliver_to_shape by blast
  obtain S' A' where 2: "fold (deliver_to P c ev) is (deliver_to P c ev i w) =
      (deliver_to P c ev i w)\<lparr>streams := S', activeRequestIds := A'\<rparr>"
    using Cons.IH by blast
  have "fold (deliver_to P c ev) (i # is) w = w\<lparr>streams := S', activeRequestIds := A'\<rparr>"
    using 1 2 by simp
  then show ?case by blast
qed

lemma streams_fold_deliver_to:
  "distinct is \<Longrightarrow>
   streams (fold (deliver_to P c ev) is w) j =
     (if j \<in> set is then hears P c ev (streams w j) else streams w j)"
proof (induction "is" arbitrary: w)
  case Nil
  show ?case by simp
next
  case (Cons i "is")
  then have d: "distinct is" and n: "i \<notin> set is" by auto
  show ?case using Cons.IH [OF d, of "deliver_to P c ev i w"] n
    by (auto simp: streams_deliver_to)
qed

lemma deliver_shape: "\<exists>S A. deliver P c ev w = w\<lparr>streams := S, activeRequestIds := A\<rparr>"
  unfolding deliver_def by (rule fold_deliver_to_shape)

lemma streams_deliver:
  "streams (deliver P c ev w) j = (if j < nstreams w then hears P c ev (streams w j) else streams w j)"
  by (simp add: deliver_def streams_fold_deliver_to)

lemma aborts_completed: "completed st \<Longrightarrow> aborts st = st"
  by (simp add: aborts_def finish_def)

lemma try_send_streams [simp]:
  "streams (case agent_send c f w of Inl e \<Rightarrow> w | Inr w' \<Rightarrow> w') = streams w"
  "nstreams (case agent_send c f w of Inl e \<Rightarrow> w | Inr w' \<Rightarrow> w') = nstreams w"
  "activeRequestIds (case agent_send c f w of Inl e \<Rightarrow> w | Inr w' \<Rightarrow> w') = activeRequestIds w"
  by (simp_all add: agent_send_def split: option.splits)

lemma fst_finish_abort: "fst (finish (controller_error abortError) (st, ids)) = aborts st"
  by (simp add: aborts_def fst_finish [of _ _ ids])

lemma streams_onAbort:
  "streams (onAbort j w) i = (if i = j then aborts (streams w j) else streams w i)"
  by (simp add: onAbort_def Let_def streams_on_stream fst_finish_abort aborts_completed)

lemma nstreams_on_stream [simp]: "nstreams (on_stream i f w) = nstreams w"
  by (simp add: on_stream_def split: prod.splits)

lemma nstreams_onAbort [simp]: "nstreams (onAbort j w) = nstreams w"
  by (simp add: onAbort_def Let_def)

lemma nstreams_deliver [simp]: "nstreams (deliver P c ev w) = nstreams w"
  using deliver_shape [of P c ev w] by auto

lemma streams_abort_fires:
  "i < nstreams w \<Longrightarrow> streams (abort_fires j w) i = stream_view P i (AbortFires j) (streams w i)"
  by (auto simp: abort_fires_def stream_view_def streams_onAbort)

lemma nstreams_abort_fires [simp]: "nstreams (abort_fires j w) = nstreams w"
  by (simp add: abort_fires_def)

lemma streams_stream_cancel:
  "i < nstreams w \<Longrightarrow> streams (stream_cancel j w) i = stream_view P i (StreamCancel j) (streams w i)"
  by (auto simp: stream_cancel_def source_cancel_def stream_view_def streams_onAbort Let_def streams_on_stream
      fst_finish [of _ _ "activeRequestIds w"])

lemma nstreams_stream_cancel [simp]: "nstreams (stream_cancel j w) = nstreams w"
  by (simp add: stream_cancel_def source_cancel_def Let_def)

lemma streams_done_call [simp]: "streams (done_call k v w) = streams w"
  and nstreams_done_call [simp]: "nstreams (done_call k v w) = nstreams w"
  by (simp_all add: done_call_def)

lemma streams_reconnect [simp]: "streams (snd (reconnectToStream w)) = streams w"
  and nstreams_reconnect [simp]: "nstreams (snd (reconnectToStream w)) = nstreams w"
  by (simp_all add: reconnectToStream_def Let_def agent_send_def split: option.splits)

lemma fold_done_streams [simp]:
  "streams (fold (\<lambda>(d, k). done_call k v) ts w) = streams w"
  "nstreams (fold (\<lambda>(d, k). done_call k v) ts w) = nstreams w"
  by (induction ts arbitrary: w) (auto)

lemma streams_advance [simp]: "streams (advance dt w) = streams w"
  and nstreams_advance [simp]: "nstreams (advance dt w) = nstreams w"
  by (simp_all add: advance_def Let_def)

lemma streams_handle:
  "i < nstreams w \<Longrightarrow> streams (snd (handleStreamResuming rid w)) i = streams w i"
  by (auto simp: handleStreamResuming_def resume_closure_def createResumeStream_def Let_def
      agent_send_def split: option.splits)

lemma nstreams_handle: "nstreams w \<le> nstreams (snd (handleStreamResuming rid w))"
  by (auto simp: handleStreamResuming_def resume_closure_def createResumeStream_def Let_def
      agent_send_def split: option.splits)

lemma streams_sendMessages:
  "i < nstreams w \<Longrightarrow> streams (snd (sendMessages rid b sig w)) i = streams w i"
  by (auto simp: sendMessages_def Let_def agent_send_def streams_onAbort split: option.splits)

lemma nstreams_sendMessages: "nstreams (snd (sendMessages rid b sig w)) = Suc (nstreams w)"
  by (auto simp: sendMessages_def Let_def agent_send_def split: option.splits)

lemma streams_step:
  "i < nstreams w \<Longrightarrow> streams (step P e w) i = stream_view P i e (streams w i)"
proof (cases e)
  case (Deliver c ev)
  assume "i < nstreams w"
  with Deliver show ?thesis by (simp add: step_def stream_view_def streams_deliver)
next
  case (AbortFires j)
  assume "i < nstreams w"
  with AbortFires show ?thesis using streams_abort_fires [of i w j P] by (simp add: step_def)
next
  case (StreamCancel j)
  assume "i < nstreams w"
  with StreamCancel show ?thesis using streams_stream_cancel [of i w j P] by (simp add: step_def)
next
  case (StreamResuming rid)
  assume "i < nstreams w"
  with StreamResuming show ?thesis by (simp add: step_def stream_view_def streams_handle)
next
  case (SendMessages rid b sig)
  assume "i < nstreams w"
  with SendMessages show ?thesis by (simp add: step_def stream_view_def streams_sendMessages)
qed (simp_all add: step_def stream_view_def set_agent_def)

lemma nstreams_step: "nstreams w \<le> nstreams (step P e w)"
  by (cases e) (simp_all add: step_def set_agent_def nstreams_handle nstreams_sendMessages)

lemma run_Cons: "run P (e # es) w = run P es (step P e w)"
  and run_Nil: "run P [] w = w"
  and run_append: "run P (es @ es') w = run P es' (run P es w)"
  by (simp_all add: run_def)

lemma nstreams_run: "nstreams w \<le> nstreams (run P es w)"
proof (induction es arbitrary: w)
  case Nil
  show ?case by (simp add: run_Nil)
next
  case (Cons e es)
  from nstreams_step [of w P e] Cons.IH [of "step P e w"] show ?case by (simp add: run_Cons)
qed

lemma streams_run:
  "i < nstreams w \<Longrightarrow> streams (run P es w) i = fold (stream_view P i) es (streams w i)"
proof (induction es arbitrary: w)
  case Nil
  show ?case by (simp add: run_Nil)
next
  case (Cons e es)
  from Cons.prems nstreams_step [of w P e] have "i < nstreams (step P e w)" by simp
  from Cons.IH [OF this] Cons.prems show ?case by (simp add: streams_step run_Cons)
qed

subsection \<open>The listener on one stream\<close>

lemma dropWhile_Nil_iff: "dropWhile Q xs = [] \<longleftrightarrow> list_all Q xs"
  by (induction xs) auto

lemma all_dropWhile_iff: "list_all Q (dropWhile Q xs) \<longleftrightarrow> dropWhile Q xs = []"
proof
  assume a: "list_all Q (dropWhile Q xs)"
  show "dropWhile Q xs = []"
  proof (rule ccontr)
    assume n: "dropWhile Q xs \<noteq> []"
    then have "\<not> Q (hd (dropWhile Q xs))" by (rule hd_dropWhile)
    moreover from n have "hd (dropWhile Q xs) \<in> set (dropWhile Q xs)" by simp
    ultimately show False using a by (auto simp: list_all_iff)
  qed
next
  assume "dropWhile Q xs = []"
  then show "list_all Q (dropWhile Q xs)" by (simp only: list.pred_inject)
qed

lemma trim_Nil_iff: "trim s = [] \<longleftrightarrow> list_all js_whitespace s"
proof -
  have "trim s = [] \<longleftrightarrow> list_all js_whitespace (rev (dropWhile js_whitespace s))"
    by (simp add: trim_def list_all_iff)
  also have "\<dots> \<longleftrightarrow> list_all js_whitespace (dropWhile js_whitespace s)"
    by (simp only: list_all_rev)
  also have "\<dots> \<longleftrightarrow> dropWhile js_whitespace s = []"
    by (rule all_dropWhile_iff)
  also have "\<dots> \<longleftrightarrow> list_all js_whitespace s"
    by (rule dropWhile_Nil_iff)
  finally show ?thesis .
qed

lemma chunk_of_None_iff: "chunk_of P f = None \<longleftrightarrow> no_chunk_body P (sf_body f)"
  by (auto simp: chunk_of_def no_chunk_body_def trim_Nil_iff split: option.splits)

lemma enqueue_body_live:
  "ctl_state st = Readable \<Longrightarrow>
   enqueue_body P (sf_body f) st =
     st\<lparr>delivered := delivered st @ (case chunk_of P f of None \<Rightarrow> [] | Some x \<Rightarrow> [Chunk x])\<rparr>"
  by (simp add: enqueue_body_def chunk_of_def controller_enqueue_def split: option.splits)

lemma enqueue_body_ended: "ctl_state st \<noteq> Readable \<Longrightarrow> enqueue_body P b st = st"
  by (simp add: enqueue_body_def controller_enqueue_def split: option.splits)

lemma hears_chunk:
  assumes "live st" "listens_on st = c" "for_stream st f" "\<not> sf_error f" "\<not> sf_done f"
  shows "hears P c (Json f) st =
     st\<lparr>delivered := delivered st @ (case chunk_of P f of None \<Rightarrow> [] | Some x \<Rightarrow> [Chunk x])\<rparr>"
  using assms by (simp add: hears_def live_def for_stream_def onMessage_def enqueue_body_live)

lemma hears_done:
  assumes "live st" "listens_on st = c" "for_stream st f" "\<not> sf_error f" "sf_done f"
  shows "delivered (hears P c (Json f) st) =
           delivered st @ (case chunk_of P f of None \<Rightarrow> [] | Some x \<Rightarrow> [Chunk x]) @ [CloseSignal]"
    and "ctl_state (hears P c (Json f) st) = Closed"
    and "ended (hears P c (Json f) st)"
    and "\<not> listening (hears P c (Json f) st)"
  using assms
  by (simp_all add: hears_def live_def for_stream_def onMessage_def enqueue_body_live finish_def
      controller_close_def ended_def Let_def)

lemma hears_error:
  assumes "live st" "listens_on st = c" "for_stream st f" "sf_error f"
  shows "delivered (hears P c (Json f) st) =
           delivered st @ [ErrorSignal (new_Error (body_or (sf_body f) ''Stream error''))]"
    and "ended (hears P c (Json f) st)"
  using assms
  by (simp_all add: hears_def live_def for_stream_def onMessage_def finish_def
      controller_error_def ended_def Let_def)

lemma hears_ended: "ended st \<Longrightarrow> hears P c ev st = st"
  by (cases ev)
     (simp_all add: hears_def ended_def onMessage_def finish_def enqueue_body_ended Let_def)


lemma view_ended:
  assumes "ended st"
  shows "stream_view P i e st = st \<or> stream_view P i e st = st\<lparr>abort_signal := Fired\<rparr>"
proof (cases e)
  case (Deliver c ev)
  with assms show ?thesis by (simp add: stream_view_def hears_ended)
next
  case (AbortFires j)
  with assms show ?thesis by (simp add: stream_view_def aborts_completed ended_def)
next
  case (StreamCancel j)
  with assms show ?thesis by (simp add: stream_view_def ended_def)
qed (simp_all add: stream_view_def)

lemma view_ended_fields:
  assumes "ended st"
  shows "ended (stream_view P i e st)"
    and "delivered (stream_view P i e st) = delivered st"
    and "ctl_state (stream_view P i e st) = ctl_state st"
  using view_ended [OF assms, of P i e] assms by (auto simp: ended_def)

lemma fold_view_ended:
  "ended st \<Longrightarrow>
     ended (fold (stream_view P i) es st) \<and>
     delivered (fold (stream_view P i) es st) = delivered st \<and>
     ctl_state (fold (stream_view P i) es st) = ctl_state st"
proof (induction es arbitrary: st)
  case Nil
  then show ?case by simp
next
  case (Cons e es)
  from Cons.IH [OF view_ended_fields(1) [OF Cons.prems, of P i e]]
    view_ended_fields(2,3) [OF Cons.prems, of P i e]
  show ?case by simp
qed




lemma chunks_of_Nil [simp]: "chunks_of P [] = []"
  by (simp add: chunks_of_def map_filter_simps)



subsection \<open>Streams of sendMessages: delivery, completion, cancellation\<close>

lemma sendMessages_stream:
  assumes "sig \<noteq> Some True" "send_throws w (agent w) = None"
  shows "fst (sendMessages rid b sig w) = Return (nstreams w)"
    and "streams (snd (sendMessages rid b sig w)) (nstreams w) =
           new_stream rid (agent w) False (case sig of None \<Rightarrow> NoSignal | Some a \<Rightarrow> Armed)"
    and "wire (snd (sendMessages rid b sig w)) = wire w @ [(agent w, chat_request rid b)]"
    and "activeRequestIds (snd (sendMessages rid b sig w)) =
           map_option (insert rid) (activeRequestIds w)"
  using assms
  by (auto simp: sendMessages_def Let_def agent_send_def split: option.splits)

lemma live_new_stream: "live (new_stream rid c r sg)"
  by (simp add: live_def new_stream_def)



text \<open>
  Claim C10. A response frame for a live stream, not marked error, whose body is absent,
  empty, white space only or rejected by \<^verbatim>\<open>JSON.parse\<close>: if it is not marked done the
  stream is left exactly as it was (nothing enqueued, neither closed nor errored, still
  listening), and a later frame with a good body is delivered as usual; if it is marked
  done the stream closes with no chunk delivered.
\<close>

theorem bad_body_is_skipped:
  assumes "i < nstreams w" and "live (streams w i)" and "listens_on (streams w i) = c"
    and "for_stream (streams w i) f" and "\<not> sf_error f" and "no_chunk_body P (sf_body f)"
  shows "(\<not> sf_done f \<longrightarrow>
            streams (deliver P c (Json f) w) i = streams w i
          \<and> (for_stream (streams w i) g \<and> \<not> sf_error g \<and> \<not> sf_done g \<and> chunk_of P g = Some x
              \<longrightarrow> delivered (streams (deliver P c (Json g) (deliver P c (Json f) w)) i) =
                    delivered (streams w i) @ [Chunk x]))
       \<and> (sf_done f \<longrightarrow>
            delivered (streams (deliver P c (Json f) w) i) = delivered (streams w i) @ [CloseSignal]
          \<and> ctl_state (streams (deliver P c (Json f) w) i) = Closed)"
proof -
  from assms(6) have n: "chunk_of P f = None" by (simp add: chunk_of_None_iff)
  have s: "streams (deliver P c (Json f) w) i = hears P c (Json f) (streams w i)"
    using assms(1) by (simp add: streams_deliver)
  have a: "streams (deliver P c (Json f) w) i = streams w i" if "\<not> sf_done f"
    using hears_chunk [OF assms(2,3,4,5) that, of P] n s by simp
  have b: "delivered (streams (deliver P c (Json g) (deliver P c (Json f) w)) i) =
        delivered (streams w i) @ [Chunk x]"
    if "\<not> sf_done f" "for_stream (streams w i) g" "\<not> sf_error g" "\<not> sf_done g"
       "chunk_of P g = Some x"
  proof -
    have "streams (deliver P c (Json g) (deliver P c (Json f) w)) i =
        hears P c (Json g) (streams w i)"
      using assms(1) a [OF that(1)] by (simp add: streams_deliver)
    with hears_chunk [OF assms(2,3) that(2,3,4), of P] that(5) show ?thesis by simp
  qed
  have c: "delivered (streams (deliver P c (Json f) w) i) = delivered (streams w i) @ [CloseSignal]
      \<and> ctl_state (streams (deliver P c (Json f) w) i) = Closed" if "sf_done f"
    using hears_done(1,2) [OF assms(2,3,4,5) that, of P] n s by simp
  from a b c show ?thesis by blast
qed

theorem bad_body_is_skipped_witness:
  "streams (deliver demo_parse 0 (Json (response ''req'' ''  '' False))
      (snd (sendMessages ''req'' ''payload'' None fresh_world))) 0
     = streams (snd (sendMessages ''req'' ''payload'' None fresh_world)) 0
   \<and> delivered (streams (deliver demo_parse 0 (Json (response ''req'' ''{x}'' False))
      (deliver demo_parse 0 (Json (response ''req'' ''  '' False))
        (snd (sendMessages ''req'' ''payload'' None fresh_world)))) 0) = [Chunk ''{x}'']
   \<and> delivered (streams (deliver demo_parse 0 (Json (response ''req'' ''nope'' True))
      (snd (sendMessages ''req'' ''payload'' None fresh_world))) 0) = [CloseSignal]"
proof -
  let ?w = "snd (sendMessages ''req'' ''payload'' None fresh_world)"
  have st: "streams ?w 0 = new_stream ''req'' 0 False NoSignal"
    using sendMessages_stream(2) [of None fresh_world "''req''" "''payload''"]
    by (simp add: fresh_world_def init_world_def)
  have n: "0 < nstreams ?w"
    by (simp add: nstreams_sendMessages)
  have l: "live (streams ?w 0)"
    by (simp add: st live_new_stream)
  have c: "listens_on (streams ?w 0) = 0"
    by (simp add: st new_stream_def)
  have d0: "delivered (streams ?w 0) = []"
    by (simp add: st new_stream_def)
  have f1: "for_stream (streams ?w 0) (response ''req'' ''  '' False)"
    and f2: "for_stream (streams ?w 0) (response ''req'' ''nope'' True)"
    and f3: "for_stream (streams ?w 0) (response ''req'' ''{x}'' False)"
    by (simp_all add: st new_stream_def for_stream_def response_def)
  have b1: "no_chunk_body demo_parse (sf_body (response ''req'' ''  '' False))"
    by (simp add: no_chunk_body_def response_def js_whitespace_def)
  have b2: "no_chunk_body demo_parse (sf_body (response ''req'' ''nope'' True))"
    by (simp add: no_chunk_body_def response_def demo_parse_def)
  have e1: "\<not> sf_error (response ''req'' ''  '' False)" "\<not> sf_done (response ''req'' ''  '' False)"
    and e2: "\<not> sf_error (response ''req'' ''nope'' True)" "sf_done (response ''req'' ''nope'' True)"
    and e3: "\<not> sf_error (response ''req'' ''{x}'' False)" "\<not> sf_done (response ''req'' ''{x}'' False)"
    by (simp_all add: response_def)
  have g: "chunk_of demo_parse (response ''req'' ''{x}'' False) = Some ''{x}''"
    by (simp add: chunk_of_def response_def trim_def js_whitespace_def
        demo_parse_def)
  from bad_body_is_skipped [OF n l c f1 e1(1) b1, of "response ''req'' ''{x}'' False" "''{x}''"]
    bad_body_is_skipped [OF n l c f2 e2(1) b2]
    e1 e2 e3 f3 g d0
  show ?thesis by simp
qed

lemma wire_on_stream [simp]: "wire (on_stream i f w) = wire w"
  by (simp add: on_stream_def split: prod.splits)

lemma wire_onAbort:
  "wire (onAbort i w) =
     (if completed (streams w i) then wire w
      else case send_throws w (listens_on (streams w i)) of
             None \<Rightarrow> wire w @ [(listens_on (streams w i), request_cancel (requestId (streams w i)))]
           | Some e \<Rightarrow> wire w)"
  by (simp add: onAbort_def Let_def agent_send_def split: option.splits)

lemma aborts_readable:
  assumes "\<not> completed st" "ctl_state st = Readable"
  shows "delivered (aborts st) = delivered st @ [ErrorSignal abortError]"
    and "ctl_state (aborts st) = Errored abortError"
    and "ended (aborts st)"
  using assms by (simp_all add: aborts_def finish_def controller_error_def Let_def ended_def)

lemma aborts_closed:
  assumes "\<not> completed st" "ctl_state st = Closed"
  shows "delivered (aborts st) = delivered st"
    and "ctl_state (aborts st) = Closed"
    and "ended (aborts st)"
  using assms by (simp_all add: aborts_def finish_def controller_error_def Let_def ended_def)

lemma wire_cancel_ended:
  assumes "ended (streams w i)" "cancels i t"
  shows "wire (step P t w) = wire w"
proof (cases t)
  case (AbortFires j)
  with assms show ?thesis
    by (simp add: step_def abort_fires_def wire_onAbort ended_def)
next
  case (StreamCancel j)
  with assms show ?thesis
    by (simp add: step_def stream_cancel_def ended_def)
qed (use assms(2) in simp_all)

lemma abortError_not_generic: "abortError \<noteq> new_Error m"
  by (simp add: abortError_def new_Error_def)

text \<open>
  When the consumer's own \<^verbatim>\<open>stream.cancel()\<close> comes first on a stream of
  \<^verbatim>\<open>sendMessages\<close>, the cancel frame is sent once as well, but the stream is already
  closed when \<^verbatim>\<open>onAbort\<close> runs, so its \<^verbatim>\<open>streamController.error(abortError)\<close> has no
  effect: the consumer that cancelled sees the stream closed, with no error signal.
\<close>

lemma consumer_cancel_first:
  assumes "i < nstreams w" and "\<not> resumed (streams w i)" and "\<not> completed (streams w i)"
    and "ctl_state (streams w i) = Readable"
  shows "wire (stream_cancel i w) =
           (case send_throws w (listens_on (streams w i)) of
              None \<Rightarrow> wire w @ [(listens_on (streams w i), request_cancel (requestId (streams w i)))]
            | Some e \<Rightarrow> wire w)"
    and "delivered (streams (stream_cancel i w) i) = delivered (streams w i)"
    and "ctl_state (streams (stream_cancel i w) i) = Closed"
    and "ended (streams (stream_cancel i w) i)"
proof -
  let ?st = "(streams w i)\<lparr>ctl_state := Closed\<rparr>"
  have v: "streams (stream_cancel i w) i = aborts ?st"
    using streams_stream_cancel [OF assms(1), of i undefined] assms(2,4)
    by (simp add: stream_view_def)
  have nc: "\<not> completed ?st" and cl: "ctl_state ?st = Closed"
    using assms(3) by simp_all
  show "delivered (streams (stream_cancel i w) i) = delivered (streams w i)"
    using aborts_closed(1) [OF nc cl] v by simp
  show "ctl_state (streams (stream_cancel i w) i) = Closed"
    using aborts_closed(2) [OF nc cl] v by simp
  show "ended (streams (stream_cancel i w) i)"
    using aborts_closed(3) [OF nc cl] v by simp
  show "wire (stream_cancel i w) =
           (case send_throws w (listens_on (streams w i)) of
              None \<Rightarrow> wire w @ [(listens_on (streams w i), request_cancel (requestId (streams w i)))]
            | Some e \<Rightarrow> wire w)"
    using assms by (simp add: stream_cancel_def source_cancel_def Let_def wire_onAbort split: option.splits)
qed

lemma ended_stays:
  assumes "i < nstreams w" and "ended (streams w i)" and "cancels i t"
  shows "wire (step P t (run P es w)) = wire (run P es w)"
    and "delivered (streams (step P t (run P es w)) i) = delivered (streams w i)"
proof -
  have n: "i < nstreams (run P es w)"
    using assms(1) nstreams_run [of w P es] by simp
  have r: "streams (run P es w) i = fold (stream_view P i) es (streams w i)"
    using assms(1) by (rule streams_run)
  note f = fold_view_ended [OF assms(2), of P i es]
  have e: "ended (streams (run P es w) i)"
    and d: "delivered (streams (run P es w) i) = delivered (streams w i)"
    using f r by simp_all
  show "wire (step P t (run P es w)) = wire (run P es w)"
    using e assms(3) by (rule wire_cancel_ended)
  have "delivered (streams (step P t (run P es w)) i) = delivered (streams (run P es w) i)"
    using view_ended_fields(2) [OF e, of P i t] streams_step [OF n, of P t] by simp
  with d show "delivered (streams (step P t (run P es w)) i) = delivered (streams w i)"
    by simp
qed

lemma abort_first:
  assumes "i < nstreams w" and "\<not> completed (streams w i)"
    and "ctl_state (streams w i) = Readable" and "abort_signal (streams w i) = Armed"
  shows "wire (abort_fires i w) =
           (case send_throws w (listens_on (streams w i)) of
              None \<Rightarrow> wire w @ [(listens_on (streams w i), request_cancel (requestId (streams w i)))]
            | Some e \<Rightarrow> wire w)"
    and "delivered (streams (abort_fires i w) i) = delivered (streams w i) @ [ErrorSignal abortError]"
    and "ctl_state (streams (abort_fires i w) i) = Errored abortError"
    and "ended (streams (abort_fires i w) i)"
proof -
  let ?st = "(streams w i)\<lparr>abort_signal := Fired\<rparr>"
  have v: "streams (abort_fires i w) i = aborts ?st"
    using streams_abort_fires [OF assms(1), of i undefined] assms(4) by (simp add: stream_view_def)
  have nc: "\<not> completed ?st" and rd: "ctl_state ?st = Readable"
    using assms(2,3) by simp_all
  note a = aborts_readable [OF nc rd]
  show "wire (abort_fires i w) =
           (case send_throws w (listens_on (streams w i)) of
              None \<Rightarrow> wire w @ [(listens_on (streams w i), request_cancel (requestId (streams w i)))]
            | Some e \<Rightarrow> wire w)"
    using assms(1,2,4) by (simp add: abort_fires_def wire_onAbort split: option.splits)
  show "delivered (streams (abort_fires i w) i) = delivered (streams w i) @ [ErrorSignal abortError]"
    and "ctl_state (streams (abort_fires i w) i) = Errored abortError"
    and "ended (streams (abort_fires i w) i)"
    using a v by simp_all
qed

text \<open>
  Claim C8, as amended. Take a stream of \<^verbatim>\<open>sendMessages\<close> that has not completed.
  If the caller's abort signal fires, one cancel frame, of type
  \<^verbatim>\<open>CF_AGENT_CHAT_REQUEST_CANCEL\<close> and carrying the request identifier,
  is sent on the stream's connection (none if that \<^verbatim>\<open>send\<close> throws, which is ignored)
  and the consumer is handed one error signal, the abort error, whose name is
  \<^verbatim>\<open>AbortError\<close> and which differs from every generic \<^verbatim>\<open>new Error(m)\<close>; before any
  chunk has arrived that signal is all the consumer ever gets. If instead the consumer's
  own \<^verbatim>\<open>stream.cancel()\<close> comes first, one cancel frame is sent as well and the
  stream ends closed, with no error signal. Either way a second trigger, the signal or
  \<^verbatim>\<open>stream.cancel()\<close>, at any later time sends no frame and hands the consumer nothing
  more.
\<close>

theorem cancel_once_abort_or_close:
  assumes "i < nstreams w" and "\<not> resumed (streams w i)" and "\<not> completed (streams w i)"
    and "ctl_state (streams w i) = Readable" and "cancels i t"
  shows "(abort_signal (streams w i) = Armed \<longrightarrow>
            wire (abort_fires i w) =
              (case send_throws w (listens_on (streams w i)) of
                 None \<Rightarrow> wire w @ [(listens_on (streams w i), request_cancel (requestId (streams w i)))]
               | Some e \<Rightarrow> wire w)
          \<and> delivered (streams (abort_fires i w) i) = delivered (streams w i) @ [ErrorSignal abortError]
          \<and> ctl_state (streams (abort_fires i w) i) = Errored abortError
          \<and> wire (step P t (run P es (abort_fires i w))) = wire (run P es (abort_fires i w))
          \<and> delivered (streams (step P t (run P es (abort_fires i w))) i) =
              delivered (streams w i) @ [ErrorSignal abortError])
       \<and> err_name abortError = ''AbortError'' \<and> abortError \<noteq> new_Error m
       \<and> cf_type (request_cancel (requestId (streams w i))) = CF_AGENT_CHAT_REQUEST_CANCEL
       \<and> cf_id (request_cancel (requestId (streams w i))) = Some (requestId (streams w i))
       \<and> wire (stream_cancel i w) =
           (case send_throws w (listens_on (streams w i)) of
              None \<Rightarrow> wire w @ [(listens_on (streams w i), request_cancel (requestId (streams w i)))]
            | Some e \<Rightarrow> wire w)
       \<and> delivered (streams (stream_cancel i w) i) = delivered (streams w i)
       \<and> ctl_state (streams (stream_cancel i w) i) = Closed
       \<and> wire (step P t (run P es (stream_cancel i w))) = wire (run P es (stream_cancel i w))
       \<and> delivered (streams (step P t (run P es (stream_cancel i w))) i) = delivered (streams w i)"
proof -
  have 1: "wire (abort_fires i w) =
              (case send_throws w (listens_on (streams w i)) of
                 None \<Rightarrow> wire w @ [(listens_on (streams w i), request_cancel (requestId (streams w i)))]
               | Some e \<Rightarrow> wire w)
          \<and> delivered (streams (abort_fires i w) i) = delivered (streams w i) @ [ErrorSignal abortError]
          \<and> ctl_state (streams (abort_fires i w) i) = Errored abortError
          \<and> wire (step P t (run P es (abort_fires i w))) = wire (run P es (abort_fires i w))
          \<and> delivered (streams (step P t (run P es (abort_fires i w))) i) =
              delivered (streams w i) @ [ErrorSignal abortError]"
    if armed: "abort_signal (streams w i) = Armed"
  proof -
    note a = abort_first [OF assms(1,3,4) armed]
    have n: "i < nstreams (abort_fires i w)" using assms(1) by simp
    from ended_stays [OF n a(4) assms(5), of P es] a show ?thesis by simp
  qed
  note c = consumer_cancel_first [OF assms(1-4)]
  have n: "i < nstreams (stream_cancel i w)" using assms(1) by simp
  have rc: "cf_type (request_cancel (requestId (streams w i))) = CF_AGENT_CHAT_REQUEST_CANCEL"
    "cf_id (request_cancel (requestId (streams w i))) = Some (requestId (streams w i))"
    by (simp_all add: request_cancel_def)
  from ended_stays [OF n c(4) assms(5), of P es] c 1 abortError_not_generic [of m] rc
  show ?thesis by (simp add: abortError_def)
qed

theorem cancel_once_abort_or_close_witness:
  "wire (step demo_parse (StreamCancel 0)
      (run demo_parse [] (abort_fires 0 (snd (sendMessages ''req'' ''payload'' (Some False) fresh_world)))))
     = [(0, chat_request ''req'' ''payload''), (0, request_cancel ''req'')]
   \<and> delivered (streams (step demo_parse (StreamCancel 0)
      (run demo_parse [] (abort_fires 0 (snd (sendMessages ''req'' ''payload'' (Some False) fresh_world))))) 0)
     = [ErrorSignal abortError]
   \<and> wire (step demo_parse (StreamCancel 0)
      (run demo_parse [] (stream_cancel 0 (snd (sendMessages ''req'' ''payload'' (Some False) fresh_world)))))
     = [(0, chat_request ''req'' ''payload''), (0, request_cancel ''req'')]"
proof -
  let ?w = "snd (sendMessages ''req'' ''payload'' (Some False) fresh_world)"
  have st: "streams ?w 0 = new_stream ''req'' 0 False Armed"
    using sendMessages_stream(2) [of "Some False" fresh_world "''req''" "''payload''"]
    by (simp add: fresh_world_def init_world_def)
  have wi: "wire ?w = [(0, chat_request ''req'' ''payload'')]"
    using sendMessages_stream(3) [of "Some False" fresh_world "''req''" "''payload''"]
    by (simp add: fresh_world_def init_world_def)
  have th: "send_throws ?w 0 = None"
    by (simp add: sendMessages_def Let_def agent_send_def fresh_world_def init_world_def)
  have n: "0 < nstreams ?w"
    by (simp add: nstreams_sendMessages)
  have h: "\<not> resumed (streams ?w 0)" "\<not> completed (streams ?w 0)"
    "ctl_state (streams ?w 0) = Readable"
    and ar: "abort_signal (streams ?w 0) = Armed"
    by (simp_all add: st new_stream_def)
  have c: "cancels 0 (StreamCancel 0)" by simp
  from cancel_once_abort_or_close [where P = demo_parse and es = "[]" and m = "[]", OF n h c] ar
  show ?thesis
    by (simp add: st wi th new_stream_def run_Nil)
qed

text \<open>
  The claim as stated, that cancelling hands the consumer the abort error, fails when the
  trigger is the consumer's own \<^verbatim>\<open>stream.cancel()\<close>: on a stream fresh from
  \<^verbatim>\<open>sendMessages\<close> the cancel frame is sent, the stream is closed, and no error signal
  is delivered, not even when the abort signal fires afterwards.
\<close>

theorem stream_cancel_first_no_abort_error:
  "wire (stream_cancel 0 (snd (sendMessages ''req'' ''payload'' (Some False) fresh_world))) =
     [(0, chat_request ''req'' ''payload''), (0, request_cancel ''req'')]
   \<and> delivered (streams
       (stream_cancel 0 (snd (sendMessages ''req'' ''payload'' (Some False) fresh_world))) 0) = []
   \<and> ctl_state (streams
       (stream_cancel 0 (snd (sendMessages ''req'' ''payload'' (Some False) fresh_world))) 0) = Closed
   \<and> delivered (streams (abort_fires 0
       (stream_cancel 0 (snd (sendMessages ''req'' ''payload'' (Some False) fresh_world)))) 0) = []"
proof -
  let ?w = "snd (sendMessages ''req'' ''payload'' (Some False) fresh_world)"
  have st: "streams ?w 0 = new_stream ''req'' 0 False Armed"
    using sendMessages_stream(2) [of "Some False" fresh_world "''req''" "''payload''"]
    by (simp add: fresh_world_def init_world_def)
  have wi: "wire ?w = [(0, chat_request ''req'' ''payload'')]"
    using sendMessages_stream(3) [of "Some False" fresh_world "''req''" "''payload''"]
    by (simp add: fresh_world_def init_world_def)
  have th: "send_throws ?w 0 = None"
    by (simp add: sendMessages_def Let_def agent_send_def fresh_world_def init_world_def)
  have n: "0 < nstreams ?w"
    by (simp add: nstreams_sendMessages)
  have h: "\<not> resumed (streams ?w 0)" "\<not> completed (streams ?w 0)"
    "ctl_state (streams ?w 0) = Readable"
    by (simp_all add: st new_stream_def)
  note c = consumer_cancel_first [OF n h]
  have n': "0 < nstreams (stream_cancel 0 ?w)" using n by simp
  have a: "cancels 0 (AbortFires 0)" by simp
  from ended_stays(2) [OF n' c(4) a, of demo_parse "[]"]
  have "delivered (streams (abort_fires 0 (stream_cancel 0 ?w)) 0) =
      delivered (streams (stream_cancel 0 ?w) 0)"
    by (simp add: run_Nil step_def)
  with c show ?thesis
    by (simp add: st wi th new_stream_def)
qed

subsection \<open>Resume calls, the resolver slot and the timers\<close>

lemma deliver_keeps:
  "calls (deliver P c ev w) = calls w" "ncalls (deliver P c ev w) = ncalls w"
  "timers (deliver P c ev w) = timers w" "resumeResolver (deliver P c ev w) = resumeResolver w"
  "clock (deliver P c ev w) = clock w" "wire (deliver P c ev w) = wire w"
  "agent (deliver P c ev w) = agent w" "send_throws (deliver P c ev w) = send_throws w"
proof -
  obtain S A where "deliver P c ev w = w\<lparr>streams := S, activeRequestIds := A\<rparr>"
    using deliver_shape by blast
  then show "calls (deliver P c ev w) = calls w" "ncalls (deliver P c ev w) = ncalls w"
    "timers (deliver P c ev w) = timers w" "resumeResolver (deliver P c ev w) = resumeResolver w"
    "clock (deliver P c ev w) = clock w" "wire (deliver P c ev w) = wire w"
    "agent (deliver P c ev w) = agent w" "send_throws (deliver P c ev w) = send_throws w"
    by simp_all
qed

lemma onAbort_keeps:
  "calls (onAbort i w) = calls w" "ncalls (onAbort i w) = ncalls w"
  "timers (onAbort i w) = timers w" "resumeResolver (onAbort i w) = resumeResolver w"
  "clock (onAbort i w) = clock w" "agent (onAbort i w) = agent w"
  "send_throws (onAbort i w) = send_throws w"
  by (simp_all add: onAbort_def Let_def on_stream_def agent_send_def split: option.splits prod.splits)

lemma abort_fires_keeps:
  "calls (abort_fires i w) = calls w" "ncalls (abort_fires i w) = ncalls w"
  "timers (abort_fires i w) = timers w" "resumeResolver (abort_fires i w) = resumeResolver w"
  "clock (abort_fires i w) = clock w" "agent (abort_fires i w) = agent w"
  "send_throws (abort_fires i w) = send_throws w"
  by (simp_all add: abort_fires_def onAbort_keeps)

lemma stream_cancel_keeps:
  "calls (stream_cancel i w) = calls w" "ncalls (stream_cancel i w) = ncalls w"
  "timers (stream_cancel i w) = timers w" "resumeResolver (stream_cancel i w) = resumeResolver w"
  "clock (stream_cancel i w) = clock w" "agent (stream_cancel i w) = agent w"
  "send_throws (stream_cancel i w) = send_throws w"
  by (simp_all add: stream_cancel_def source_cancel_def Let_def onAbort_keeps on_stream_def split: prod.splits)

lemma sendMessages_keeps:
  "calls (snd (sendMessages rid b sig w)) = calls w"
  "ncalls (snd (sendMessages rid b sig w)) = ncalls w"
  "timers (snd (sendMessages rid b sig w)) = timers w"
  "resumeResolver (snd (sendMessages rid b sig w)) = resumeResolver w"
  "clock (snd (sendMessages rid b sig w)) = clock w"
  "agent (snd (sendMessages rid b sig w)) = agent w"
  "send_throws (snd (sendMessages rid b sig w)) = send_throws w"
  by (simp_all add: sendMessages_def Let_def onAbort_keeps agent_send_def split: option.splits)

lemma reconnect_effect:
  "fst (reconnectToStream w) = ncalls w"
  "calls (snd (reconnectToStream w)) = (calls w)(ncalls w := \<lparr> resolved = False, settled = None \<rparr>)"
  "ncalls (snd (reconnectToStream w)) = Suc (ncalls w)"
  "timers (snd (reconnectToStream w)) = timers w @ [(clock w + resume_timeout, ncalls w)]"
  "resumeResolver (snd (reconnectToStream w)) = Some (ncalls w)"
  "clock (snd (reconnectToStream w)) = clock w"
  "agent (snd (reconnectToStream w)) = agent w"
  "send_throws (snd (reconnectToStream w)) = send_throws w"
  "activeRequestIds (snd (reconnectToStream w)) = activeRequestIds w"
  "wire (snd (reconnectToStream w)) =
     (case send_throws w (agent w) of
        None \<Rightarrow> wire w @ [(agent w, resume_request)] | Some e \<Rightarrow> wire w)"
  by (simp_all add: reconnectToStream_def Let_def agent_send_def split: option.splits)

lemma done_call_effect:
  "calls (done_call k v w) =
     (if resolved (calls w k) then calls w
      else (calls w)(k := \<lparr> resolved = True, settled = Some v \<rparr>))"
  "resumeResolver (done_call k v w) = (if resolved (calls w k) then resumeResolver w else None)"
  "timers (done_call k v w) =
     (if resolved (calls w k) then timers w else filter (\<lambda>(t, k'). k' \<noteq> k) (timers w))"
  "ncalls (done_call k v w) = ncalls w" "clock (done_call k v w) = clock w"
  "agent (done_call k v w) = agent w" "send_throws (done_call k v w) = send_throws w"
  "wire (done_call k v w) = wire w" "activeRequestIds (done_call k v w) = activeRequestIds w"
  by (simp_all add: done_call_def)

lemma handle_no_resolver:
  "resumeResolver w = None \<Longrightarrow> handleStreamResuming rid w = (Return False, w)"
  by (simp add: handleStreamResuming_def)

lemma handle_send_throws:
  "resumeResolver w = Some k \<Longrightarrow> send_throws w (agent w) = Some e \<Longrightarrow>
     handleStreamResuming rid w =
       (Throw e, w\<lparr>activeRequestIds := map_option (insert rid) (activeRequestIds w)\<rparr>)"
  by (simp add: handleStreamResuming_def resume_closure_def Let_def agent_send_def)

lemma handle_resolves:
  "resumeResolver w = Some k \<Longrightarrow> send_throws w (agent w) = None \<Longrightarrow>
     handleStreamResuming rid w =
       (Return True,
        done_call k (Some (nstreams w))
          (w\<lparr>activeRequestIds := map_option (insert rid) (activeRequestIds w),
             wire := wire w @ [(agent w, resume_ack rid)],
             streams := (streams w)(nstreams w := new_stream rid (agent w) True NoSignal),
             nstreams := Suc (nstreams w)\<rparr>))"
  by (simp add: handleStreamResuming_def resume_closure_def createResumeStream_def Let_def
      agent_send_def)

lemma fold_done_keeps:
  "ncalls (fold (\<lambda>(d, k). done_call k v) L w) = ncalls w"
  "clock (fold (\<lambda>(d, k). done_call k v) L w) = clock w"
  "agent (fold (\<lambda>(d, k). done_call k v) L w) = agent w"
  "send_throws (fold (\<lambda>(d, k). done_call k v) L w) = send_throws w"
  "wire (fold (\<lambda>(d, k). done_call k v) L w) = wire w"
  "activeRequestIds (fold (\<lambda>(d, k). done_call k v) L w) = activeRequestIds w"
  by (induction L arbitrary: w) (auto simp: done_call_effect)

lemma fold_done_resolved:
  "resolved (calls w k) \<Longrightarrow> calls (fold (\<lambda>(d, k). done_call k v) L w) k = calls w k"
  by (induction L arbitrary: w) (auto simp: done_call_effect)

lemma fold_done_slot_None:
  "resumeResolver w = None \<Longrightarrow> resumeResolver (fold (\<lambda>(d, k). done_call k v) L w) = None"
  by (induction L arbitrary: w) (auto simp: done_call_effect)

lemma fold_done_slot:
  "resumeResolver (fold (\<lambda>(d, k). done_call k v) L w) = None \<or>
   (resumeResolver (fold (\<lambda>(d, k). done_call k v) L w) = resumeResolver w \<and>
    calls (fold (\<lambda>(d, k). done_call k v) L w) = calls w)"
proof (induction L arbitrary: w)
  case Nil
  show ?case by simp
next
  case (Cons x L)
  obtain d k where x: "x = (d, k)" by (cases x)
  show ?case
  proof (cases "resolved (calls w k)")
    case True
    then have "done_call k v w = w" by (simp add: done_call_def)
    with Cons.IH [of w] x show ?thesis by simp
  next
    case False
    then have "resumeResolver (done_call k v w) = None" by (simp add: done_call_effect)
    from fold_done_slot_None [OF this, of v L] x show ?thesis by simp
  qed
qed

lemma fold_done_pending:
  assumes "\<not> resolved (calls w k)"
  shows "if k \<in> snd ` set L
         then calls (fold (\<lambda>(d, k). done_call k v) L w) k = \<lparr> resolved = True, settled = Some v \<rparr>
              \<and> resumeResolver (fold (\<lambda>(d, k). done_call k v) L w) = None
         else calls (fold (\<lambda>(d, k). done_call k v) L w) k = calls w k
              \<and> (\<forall>T. (T, k) \<in> set (timers w) \<longrightarrow>
                    (T, k) \<in> set (timers (fold (\<lambda>(d, k). done_call k v) L w)))"
  using assms
proof (induction L arbitrary: w)
  case Nil
  show ?case by simp
next
  case (Cons x L)
  obtain d k' where x: "x = (d, k')" by (cases x)
  let ?w = "done_call k' v w"
  show ?case
  proof (cases "k' = k")
    case True
    with Cons.prems have c: "calls ?w k = \<lparr> resolved = True, settled = Some v \<rparr>"
      and s: "resumeResolver ?w = None"
      by (simp_all add: done_call_effect)
    then have r: "resolved (calls ?w k)" by simp
    from fold_done_resolved [OF r, of v L] fold_done_slot_None [OF s, of v L] c x True
    show ?thesis by simp
  next
    case False
    with Cons.prems have u: "\<not> resolved (calls ?w k)" and c: "calls ?w k = calls w k"
      by (simp_all add: done_call_effect)
    have t: "(T, k) \<in> set (timers ?w)" if "(T, k) \<in> set (timers w)" for T
      using that False by (auto simp: done_call_effect)
    from Cons.IH [OF u] c t x False show ?thesis by auto
  qed
qed

lemma advance_keeps:
  "ncalls (advance dt w) = ncalls w" "clock (advance dt w) = clock w + dt"
  "agent (advance dt w) = agent w" "send_throws (advance dt w) = send_throws w"
  "wire (advance dt w) = wire w" "activeRequestIds (advance dt w) = activeRequestIds w"
  by (simp_all add: advance_def Let_def fold_done_keeps)

lemma advance_resolved:
  "resolved (calls w k) \<Longrightarrow> calls (advance dt w) k = calls w k"
  by (simp add: advance_def Let_def fold_done_resolved)

lemma advance_due:
  assumes "\<not> resolved (calls w k)" "(T, k) \<in> set (timers w)" "T \<le> clock w + dt"
  shows "calls (advance dt w) k = \<lparr> resolved = True, settled = Some None \<rparr>"
    and "resumeResolver (advance dt w) = None"
proof -
  let ?t = "clock w + dt"
  let ?due = "filter (\<lambda>(d, k). d \<le> ?t) (timers w)"
  let ?w1 = "w\<lparr>clock := ?t, timers := filter (\<lambda>(d, k). \<not> d \<le> ?t) (timers w)\<rparr>"
  from assms(2,3) have "(T, k) \<in> set ?due" by simp
  then have k: "k \<in> snd ` set ?due" by force
  from assms(1) have u: "\<not> resolved (calls ?w1 k)" by simp
  from fold_done_pending [OF u, of ?due None] k
  show "calls (advance dt w) k = \<lparr> resolved = True, settled = Some None \<rparr>"
    and "resumeResolver (advance dt w) = None"
    by (simp_all add: advance_def Let_def)
qed

lemma advance_pending:
  assumes "\<not> resolved (calls w k)" "(T, k) \<in> set (timers w)"
  shows "calls (advance dt w) k = \<lparr> resolved = True, settled = Some None \<rparr> \<or>
         (calls (advance dt w) k = calls w k \<and> (T, k) \<in> set (timers (advance dt w)))"
proof -
  let ?t = "clock w + dt"
  let ?due = "filter (\<lambda>(d, k). d \<le> ?t) (timers w)"
  let ?w1 = "w\<lparr>clock := ?t, timers := filter (\<lambda>(d, k). \<not> d \<le> ?t) (timers w)\<rparr>"
  from assms(1) have u: "\<not> resolved (calls ?w1 k)" by simp
  note f = fold_done_pending [OF u, of ?due None]
  show ?thesis
  proof (cases "k \<in> snd ` set ?due")
    case True
    with f show ?thesis by (simp add: advance_def Let_def)
  next
    case False
    with assms(2) have "(T, k) \<in> set (timers ?w1)" by force
    with f False show ?thesis by (simp add: advance_def Let_def)
  qed
qed

lemma advance_slot:
  "resumeResolver (advance dt w) = None \<or>
   (resumeResolver (advance dt w) = resumeResolver w \<and> calls (advance dt w) = calls w)"
  using fold_done_slot [of None "filter (\<lambda>(d, k). d \<le> clock w + dt) (timers w)"
      "w\<lparr>clock := clock w + dt, timers := filter (\<lambda>(d, k). \<not> d \<le> clock w + dt) (timers w)\<rparr>"]
  by (simp add: advance_def Let_def)

lemma handle_effect:
  "calls (snd (handleStreamResuming rid w)) =
     (case resumeResolver w of
        None \<Rightarrow> calls w
      | Some k \<Rightarrow> if send_throws w (agent w) = None \<and> \<not> resolved (calls w k)
                  then (calls w)(k := \<lparr> resolved = True, settled = Some (Some (nstreams w)) \<rparr>)
                  else calls w)"
  "resumeResolver (snd (handleStreamResuming rid w)) =
     (case resumeResolver w of
        None \<Rightarrow> None
      | Some k \<Rightarrow> if send_throws w (agent w) = None \<and> \<not> resolved (calls w k)
                  then None else Some k)"
  "timers (snd (handleStreamResuming rid w)) =
     (case resumeResolver w of
        None \<Rightarrow> timers w
      | Some k \<Rightarrow> if send_throws w (agent w) = None \<and> \<not> resolved (calls w k)
                  then filter (\<lambda>(t, k'). k' \<noteq> k) (timers w) else timers w)"
  "ncalls (snd (handleStreamResuming rid w)) = ncalls w"
  "clock (snd (handleStreamResuming rid w)) = clock w"
  "agent (snd (handleStreamResuming rid w)) = agent w"
  "send_throws (snd (handleStreamResuming rid w)) = send_throws w"
proof -
  consider (none) "resumeResolver w = None"
    | (throws) k e where "resumeResolver w = Some k" "send_throws w (agent w) = Some e"
    | (sends) k where "resumeResolver w = Some k" "send_throws w (agent w) = None"
    by (cases "resumeResolver w"; cases "send_throws w (agent w)") auto
  then have
    "calls (snd (handleStreamResuming rid w)) =
     (case resumeResolver w of
        None \<Rightarrow> calls w
      | Some k \<Rightarrow> if send_throws w (agent w) = None \<and> \<not> resolved (calls w k)
                  then (calls w)(k := \<lparr> resolved = True, settled = Some (Some (nstreams w)) \<rparr>)
                  else calls w)
   \<and> resumeResolver (snd (handleStreamResuming rid w)) =
     (case resumeResolver w of
        None \<Rightarrow> None
      | Some k \<Rightarrow> if send_throws w (agent w) = None \<and> \<not> resolved (calls w k)
                  then None else Some k)
   \<and> timers (snd (handleStreamResuming rid w)) =
     (case resumeResolver w of
        None \<Rightarrow> timers w
      | Some k \<Rightarrow> if send_throws w (agent w) = None \<and> \<not> resolved (calls w k)
                  then filter (\<lambda>(t, k'). k' \<noteq> k) (timers w) else timers w)
   \<and> ncalls (snd (handleStreamResuming rid w)) = ncalls w
   \<and> clock (snd (handleStreamResuming rid w)) = clock w
   \<and> agent (snd (handleStreamResuming rid w)) = agent w
   \<and> send_throws (snd (handleStreamResuming rid w)) = send_throws w"
  proof cases
    case none
    then show ?thesis by (simp add: handle_no_resolver)
  next
    case throws
    then show ?thesis by (simp add: handle_send_throws)
  next
    case sends
    then show ?thesis by (simp add: handle_resolves done_call_effect)
  qed
  then show
    "calls (snd (handleStreamResuming rid w)) =
     (case resumeResolver w of
        None \<Rightarrow> calls w
      | Some k \<Rightarrow> if send_throws w (agent w) = None \<and> \<not> resolved (calls w k)
                  then (calls w)(k := \<lparr> resolved = True, settled = Some (Some (nstreams w)) \<rparr>)
                  else calls w)"
    "resumeResolver (snd (handleStreamResuming rid w)) =
     (case resumeResolver w of
        None \<Rightarrow> None
      | Some k \<Rightarrow> if send_throws w (agent w) = None \<and> \<not> resolved (calls w k)
                  then None else Some k)"
    "timers (snd (handleStreamResuming rid w)) =
     (case resumeResolver w of
        None \<Rightarrow> timers w
      | Some k \<Rightarrow> if send_throws w (agent w) = None \<and> \<not> resolved (calls w k)
                  then filter (\<lambda>(t, k'). k' \<noteq> k) (timers w) else timers w)"
    "ncalls (snd (handleStreamResuming rid w)) = ncalls w"
    "clock (snd (handleStreamResuming rid w)) = clock w"
    "agent (snd (handleStreamResuming rid w)) = agent w"
    "send_throws (snd (handleStreamResuming rid w)) = send_throws w"
    by blast+
qed

lemma clock_step: "clock (step P e w) = clock w + elapsed [e]"
  by (cases e)
     (simp_all add: step_def deliver_keeps abort_fires_keeps stream_cancel_keeps reconnect_effect
        handle_effect advance_keeps set_agent_def sendMessages_keeps)

lemma ncalls_step: "ncalls w \<le> ncalls (step P e w)"
  by (cases e)
     (simp_all add: step_def deliver_keeps abort_fires_keeps stream_cancel_keeps reconnect_effect
        handle_effect advance_keeps set_agent_def sendMessages_keeps)

lemma step_resolved:
  assumes "k < ncalls w" "resolved (calls w k)"
  shows "calls (step P e w) k = calls w k"
proof (cases e)
  case (StreamResuming rid)
  with assms show ?thesis by (auto simp: step_def handle_effect split: option.splits)
next
  case (Advance dt)
  with assms show ?thesis by (simp add: step_def advance_resolved)
qed (use assms in \<open>simp_all add: step_def deliver_keeps abort_fires_keeps stream_cancel_keeps
        reconnect_effect set_agent_def sendMessages_keeps\<close>)

lemma step_timed_out: "timed_out k w \<Longrightarrow> timed_out k (step P e w)"
  using step_resolved [of k w P e] ncalls_step [of w P e] by (auto simp: timed_out_def)

lemma step_superseded:
  assumes "k < ncalls w" "resumeResolver w \<noteq> Some k"
  shows "resumeResolver (step P e w) \<noteq> Some k"
proof (cases e)
  case (StreamResuming rid)
  with assms show ?thesis by (auto simp: step_def handle_effect split: option.splits)
next
  case (Advance dt)
  with assms advance_slot [of dt w] show ?thesis by (auto simp: step_def)
qed (use assms in \<open>simp_all add: step_def deliver_keeps abort_fires_keeps stream_cancel_keeps
        reconnect_effect set_agent_def sendMessages_keeps\<close>)

lemma step_due:
  assumes "awaiting k T w" "T \<le> clock w + dt"
  shows "timed_out k (step P (Advance dt) w)"
  using assms advance_due(1) [of w k T dt]
  by (simp add: awaiting_def timed_out_def step_def advance_keeps)

lemma step_awaiting:
  assumes "awaiting k T w" and "resumeResolver w \<noteq> Some k \<or> \<not> is_resuming e"
  shows "awaiting k T (step P e w) \<or> timed_out k (step P e w)"
proof (cases e)
  case (StreamResuming rid)
  with assms(2) have "resumeResolver w \<noteq> Some k" by simp
  with assms(1) StreamResuming show ?thesis
    by (auto simp: awaiting_def step_def handle_effect split: option.splits)
next
  case (Advance dt)
  with assms(1) advance_pending [of w k T dt] show ?thesis
    by (auto simp: awaiting_def timed_out_def step_def advance_keeps)
next
  case Reconnect
  with assms(1) show ?thesis by (auto simp: awaiting_def step_def reconnect_effect)
qed (use assms(1) in \<open>simp_all add: awaiting_def step_def deliver_keeps abort_fires_keeps
        stream_cancel_keeps set_agent_def sendMessages_keeps\<close>)

lemma run_resolved:
  "k < ncalls w \<Longrightarrow> resolved (calls w k) \<Longrightarrow> calls (run P es w) k = calls w k"
proof (induction es arbitrary: w)
  case Nil
  show ?case by (simp add: run_Nil)
next
  case (Cons e es)
  from Cons.prems step_resolved [of k w P e] ncalls_step [of w P e]
  have "k < ncalls (step P e w)" "resolved (calls (step P e w) k)"
    and "calls (step P e w) k = calls w k" by simp_all
  with Cons.IH [of "step P e w"] show ?case by (simp add: run_Cons)
qed

lemma run_times_out:
  assumes "(awaiting k T w \<and> clock w < T) \<or> timed_out k w"
    and "resumeResolver w \<noteq> Some k \<or> (\<forall>e\<in>set es. \<not> is_resuming e)"
    and "T \<le> clock w + elapsed es"
  shows "timed_out k (run P es w)"
  using assms
proof (induction es arbitrary: w)
  case Nil
  then show ?case by (auto simp: run_Nil)
next
  case (Cons e es)
  let ?w = "step P e w"
  have el: "clock ?w + elapsed es = clock w + elapsed (e # es)"
    by (cases e) (simp_all add: clock_step)
  with Cons.prems(3) have 3: "T \<le> clock ?w + elapsed es" by simp
  from Cons.prems(1) have kn: "k < ncalls w" by (auto simp: awaiting_def timed_out_def)
  have 2: "resumeResolver ?w \<noteq> Some k \<or> (\<forall>e\<in>set es. \<not> is_resuming e)"
    using Cons.prems(2) step_superseded [OF kn, of P e] by auto
  have 1: "(awaiting k T ?w \<and> clock ?w < T) \<or> timed_out k ?w"
  proof (cases "timed_out k w")
    case True
    then show ?thesis by (simp add: step_timed_out)
  next
    case False
    with Cons.prems(1) have a: "awaiting k T w" and c: "clock w < T" by auto
    from Cons.prems(2) have s: "resumeResolver w \<noteq> Some k \<or> \<not> is_resuming e" by auto
    show ?thesis
    proof (cases "\<exists>dt. e = Advance dt \<and> T \<le> clock w + dt")
      case True
      then obtain dt where "e = Advance dt" "T \<le> clock w + dt" by blast
      with step_due [OF a, of dt P] show ?thesis by simp
    next
      case False
      with c have "clock ?w < T" by (cases e) (simp_all add: clock_step)
      with step_awaiting [OF a s, of P] show ?thesis by auto
    qed
  qed
  from Cons.IH [OF 1 2 3] show ?case by (simp add: run_Cons)
qed

lemma slot_ok_step: "slot_ok w \<Longrightarrow> slot_ok (step P e w)"
proof (cases e)
  case (StreamResuming rid)
  assume "slot_ok w"
  with StreamResuming show ?thesis
    by (auto simp: slot_ok_def step_def handle_effect split: option.splits)
next
  case (Advance dt)
  assume "slot_ok w"
  with Advance advance_slot [of dt w] show ?thesis
    by (auto simp: slot_ok_def step_def advance_keeps split: option.splits)
next
  case Reconnect
  assume "slot_ok w"
  with Reconnect show ?thesis by (simp add: slot_ok_def step_def reconnect_effect)
qed (auto simp: slot_ok_def step_def deliver_keeps abort_fires_keeps stream_cancel_keeps
        set_agent_def sendMessages_keeps split: option.splits)

lemma slot_ok_run: "slot_ok w \<Longrightarrow> slot_ok (run P es w)"
  by (induction es arbitrary: w) (simp_all add: run_Nil run_Cons slot_ok_step)

lemma slot_ok_init: "slot_ok (init_world c ids thr)"
  by (simp add: slot_ok_def init_world_def)

subsection \<open>The hand-off\<close>

text \<open>
  The hand-off on a connection that accepts the acknowledgement. In every world a
  transport can reach, \<^verbatim>\<open>handleStreamResuming\<close> with no resolver pending returns
  \<^verbatim>\<open>false\<close> and leaves the world as it is. With the resolver of call \<open>k\<close> pending
  and a \<^verbatim>\<open>send\<close> that does not throw, one call returns \<^verbatim>\<open>true\<close>, empties the
  resolver slot, adds the identifier to the active set, transmits exactly one frame of
  type \<^verbatim>\<open>CF_AGENT_STREAM_RESUME_ACK\<close> carrying that identifier on the current
  connection, and resolves the pending promise of \<open>k\<close> with a new stream that carries
  the identifier, is readable, not completed, and listens on the current connection; any
  further call, with whatever identifier, returns \<^verbatim>\<open>false\<close> and changes nothing.
\<close>

lemma handoff_when_send_accepted:
  assumes "w = run P es (init_world c ids thr)"
  shows "(resumeResolver w = None \<longrightarrow> handleStreamResuming rid w = (Return False, w))
       \<and> (resumeResolver w = Some k \<and> send_throws w (agent w) = None \<longrightarrow>
            fst (handleStreamResuming rid w) = Return True
          \<and> settled (calls w k) = None
          \<and> settled (calls (snd (handleStreamResuming rid w)) k) = Some (Some (nstreams w))
          \<and> streams (snd (handleStreamResuming rid w)) (nstreams w) =
              \<lparr> requestId = rid, listens_on = agent w, completed = False, listening = True,
                ctl_state = Readable, delivered = [], resumed = True, abort_signal = NoSignal \<rparr>
          \<and> nstreams (snd (handleStreamResuming rid w)) = Suc (nstreams w)
          \<and> resumeResolver (snd (handleStreamResuming rid w)) = None
          \<and> activeRequestIds (snd (handleStreamResuming rid w)) =
              map_option (insert rid) (activeRequestIds w)
          \<and> wire (snd (handleStreamResuming rid w)) =
              wire w @ [(agent w, \<lparr> cf_type = CF_AGENT_STREAM_RESUME_ACK, cf_id = Some rid,
                                   cf_init_body = None \<rparr>)]
          \<and> handleStreamResuming rid' (snd (handleStreamResuming rid w)) =
              (Return False, snd (handleStreamResuming rid w)))"
proof -
  have ok: "slot_ok w"
    unfolding assms using slot_ok_init by (rule slot_ok_run)
  have a: "handleStreamResuming rid w = (Return False, w)" if "resumeResolver w = None"
    using that by (rule handle_no_resolver)
  have b: "fst (handleStreamResuming rid w) = Return True
          \<and> settled (calls w k) = None
          \<and> settled (calls (snd (handleStreamResuming rid w)) k) = Some (Some (nstreams w))
          \<and> streams (snd (handleStreamResuming rid w)) (nstreams w) =
              \<lparr> requestId = rid, listens_on = agent w, completed = False, listening = True,
                ctl_state = Readable, delivered = [], resumed = True, abort_signal = NoSignal \<rparr>
          \<and> nstreams (snd (handleStreamResuming rid w)) = Suc (nstreams w)
          \<and> resumeResolver (snd (handleStreamResuming rid w)) = None
          \<and> activeRequestIds (snd (handleStreamResuming rid w)) =
              map_option (insert rid) (activeRequestIds w)
          \<and> wire (snd (handleStreamResuming rid w)) =
              wire w @ [(agent w, \<lparr> cf_type = CF_AGENT_STREAM_RESUME_ACK, cf_id = Some rid,
                                   cf_init_body = None \<rparr>)]
          \<and> handleStreamResuming rid' (snd (handleStreamResuming rid w)) =
              (Return False, snd (handleStreamResuming rid w))"
    if s: "resumeResolver w = Some k" and t: "send_throws w (agent w) = None"
  proof -
    from ok s have p: "\<not> resolved (calls w k)" "settled (calls w k) = None"
      by (simp_all add: slot_ok_def)
    have h: "handleStreamResuming rid w =
       (Return True,
        done_call k (Some (nstreams w))
          (w\<lparr>activeRequestIds := map_option (insert rid) (activeRequestIds w),
             wire := wire w @ [(agent w, resume_ack rid)],
             streams := (streams w)(nstreams w := new_stream rid (agent w) True NoSignal),
             nstreams := Suc (nstreams w)\<rparr>))"
      using s t by (rule handle_resolves)
    have n: "resumeResolver (snd (handleStreamResuming rid w)) = None"
      using p by (simp add: h done_call_effect)
    from handle_no_resolver [OF n, of rid'] p show ?thesis
      by (simp add: h done_call_effect resume_ack_def new_stream_def)
  qed
  from a b show ?thesis by blast
qed

text \<open>
  Claim C4. With no resolver pending the hand-off returns \<^verbatim>\<open>false\<close> and does nothing,
  and on a connection that accepts the acknowledgement a pending resolver is consumed as
  the claim says (lemma \<open>handoff_when_send_accepted\<close>). It is not consumed when the
  \<^verbatim>\<open>send\<close> of the acknowledgement throws: with the resume call 0 pending and the
  connection throwing, \<^verbatim>\<open>handleStreamResuming\<close> throws, the resolver stays in the
  slot, the promise stays pending, the only frame ever transmitted is the
  \<^verbatim>\<open>CF_AGENT_STREAM_RESUME_REQUEST\<close>, no stream is created, yet the identifier is
  marked active; a second call throws again rather than returning \<^verbatim>\<open>false\<close>, and
  once the connection accepts sends again a further call returns \<^verbatim>\<open>true\<close>.
\<close>

theorem handoff_throw_leaves_resolver_pending:
  "resumeResolver (run demo_parse [Reconnect, SetSendThrows 0 (Some closed_error)] fresh_world)
     = Some 0
   \<and> settled (calls
       (run demo_parse [Reconnect, SetSendThrows 0 (Some closed_error)] fresh_world) 0) = None
   \<and> fst (handleStreamResuming ''req''
       (run demo_parse [Reconnect, SetSendThrows 0 (Some closed_error)] fresh_world))
     = Throw closed_error
   \<and> resumeResolver (snd (handleStreamResuming ''req''
       (run demo_parse [Reconnect, SetSendThrows 0 (Some closed_error)] fresh_world))) = Some 0
   \<and> settled (calls (snd (handleStreamResuming ''req''
       (run demo_parse [Reconnect, SetSendThrows 0 (Some closed_error)] fresh_world))) 0) = None
   \<and> wire (snd (handleStreamResuming ''req''
       (run demo_parse [Reconnect, SetSendThrows 0 (Some closed_error)] fresh_world)))
     = [(0, \<lparr> cf_type = CF_AGENT_STREAM_RESUME_REQUEST, cf_id = None, cf_init_body = None \<rparr>)]
   \<and> nstreams (snd (handleStreamResuming ''req''
       (run demo_parse [Reconnect, SetSendThrows 0 (Some closed_error)] fresh_world))) = 0
   \<and> activeRequestIds (snd (handleStreamResuming ''req''
       (run demo_parse [Reconnect, SetSendThrows 0 (Some closed_error)] fresh_world)))
     = Some {''req''}
   \<and> fst (handleStreamResuming ''req'' (snd (handleStreamResuming ''req''
       (run demo_parse [Reconnect, SetSendThrows 0 (Some closed_error)] fresh_world))))
     = Throw closed_error
   \<and> fst (handleStreamResuming ''req-2'' (step demo_parse (SetSendThrows 0 None)
       (snd (handleStreamResuming ''req''
         (run demo_parse [Reconnect, SetSendThrows 0 (Some closed_error)] fresh_world)))))
     = Return True"
proof -
  let ?w = "run demo_parse [Reconnect, SetSendThrows 0 (Some closed_error)] fresh_world"
  let ?v = "?w\<lparr>activeRequestIds := Some {''req''}\<rparr>"
  have w: "?w = (snd (reconnectToStream fresh_world))
      \<lparr>send_throws := (send_throws (snd (reconnectToStream fresh_world)))(0 := Some closed_error)\<rparr>"
    by (simp add: run_Cons run_Nil step_def)
  have s: "resumeResolver ?w = Some 0" and t: "send_throws ?w (agent ?w) = Some closed_error"
    and a: "activeRequestIds ?w = Some {}" and n: "nstreams ?w = 0"
    and p: "settled (calls ?w 0) = None" and u: "\<not> resolved (calls ?w 0)"
    and wi: "wire ?w =
      [(0, \<lparr> cf_type = CF_AGENT_STREAM_RESUME_REQUEST, cf_id = None, cf_init_body = None \<rparr>)]"
    unfolding w
    by (simp_all add: reconnect_effect fresh_world_def init_world_def resume_request_def)
  have h: "handleStreamResuming ''req'' ?w = (Throw closed_error, ?v)"
    using handle_send_throws [OF s t, of "''req''"] by (simp add: a)
  have s': "resumeResolver ?v = Some 0" and t': "send_throws ?v (agent ?v) = Some closed_error"
    using s t by simp_all
  have h': "fst (handleStreamResuming ''req'' ?v) = Throw closed_error"
    using handle_send_throws [OF s' t', of "''req''"] by simp
  let ?o = "step demo_parse (SetSendThrows 0 None) ?v"
  have ag: "agent ?w = 0"
    unfolding w by (simp add: reconnect_effect fresh_world_def init_world_def)
  have s'': "resumeResolver ?o = Some 0" and t'': "send_throws ?o (agent ?o) = None"
    using s ag by (simp_all add: step_def)
  have h'': "fst (handleStreamResuming ''req-2'' ?o) = Return True"
    using handle_resolves [OF s'' t'', of "''req-2''"] by simp
  from s p n wi h' h'' show ?thesis
    unfolding h by simp
qed

text \<open>
  Claim C7. Whatever connection was current when \<^verbatim>\<open>reconnectToStream\<close> was called: if
  the connection is replaced by \<open>c'\<close> before the notification and \<open>c'\<close> accepts the
  acknowledgement, then the hand-off transmits on \<open>c'\<close> one frame of type
  \<^verbatim>\<open>CF_AGENT_STREAM_RESUME_ACK\<close> carrying the identifier (the frame of type
  \<^verbatim>\<open>CF_AGENT_STREAM_RESUME_REQUEST\<close> went to the old connection), the resumed
  stream carries the identifier, is readable and not completed and listens on \<open>c'\<close>, a
  chunk frame for the identifier that arrives on \<open>c'\<close> is delivered, and the same frame
  arriving on any other connection, the old one included, is not heard.
\<close>

theorem resume_binds_current_connection:
  assumes "w1 = set_agent c' (snd (reconnectToStream w))"
    and "send_throws w c' = None"
    and "w2 = snd (handleStreamResuming rid w1)"
    and "sf_type g = CF_AGENT_USE_CHAT_RESPONSE" and "sf_id g = rid"
    and "\<not> sf_error g" and "\<not> sf_done g" and "chunk_of P g = Some x"
    and "c \<noteq> c'"
  shows "fst (handleStreamResuming rid w1) = Return True
       \<and> wire w1 = (case send_throws w (agent w) of
                      None \<Rightarrow> wire w @ [(agent w, resume_request)] | Some e \<Rightarrow> wire w)
       \<and> resume_request =
           \<lparr> cf_type = CF_AGENT_STREAM_RESUME_REQUEST, cf_id = None, cf_init_body = None \<rparr>
       \<and> wire w2 = wire w1 @ [(c', resume_ack rid)]
       \<and> wire w2 = wire w1 @ [(c', \<lparr> cf_type = CF_AGENT_STREAM_RESUME_ACK, cf_id = Some rid,
                                     cf_init_body = None \<rparr>)]
       \<and> settled (calls w2 (ncalls w)) = Some (Some (nstreams w))
       \<and> listens_on (streams w2 (nstreams w)) = c'
       \<and> requestId (streams w2 (nstreams w)) = rid
       \<and> listening (streams w2 (nstreams w)) \<and> \<not> completed (streams w2 (nstreams w))
       \<and> ctl_state (streams w2 (nstreams w)) = Readable
       \<and> delivered (streams (deliver P c' (Json g) w2) (nstreams w)) = [Chunk x]
       \<and> delivered (streams (deliver P c (Json g) w2) (nstreams w)) = []"
proof -
  let ?i = "nstreams w"
  have s: "resumeResolver w1 = Some (ncalls w)" and t: "send_throws w1 (agent w1) = None"
    and a: "agent w1 = c'" and n: "nstreams w1 = nstreams w"
    and u: "\<not> resolved (calls w1 (ncalls w))"
    and wi: "wire w1 = (case send_throws w (agent w) of
                      None \<Rightarrow> wire w @ [(agent w, resume_request)] | Some e \<Rightarrow> wire w)"
    using assms(2) by (simp_all add: assms(1) set_agent_def reconnect_effect)
  note h = handle_resolves [OF s t, of rid]
  have st: "streams w2 ?i = new_stream rid c' True NoSignal"
    and n2: "?i < nstreams w2"
    and w2: "wire w2 = wire w1 @ [(c', resume_ack rid)]"
    and r: "settled (calls w2 (ncalls w)) = Some (Some (nstreams w))"
    using u by (simp_all add: assms(3) h done_call_effect a n)
  have l: "live (streams w2 ?i)"
    by (simp add: st live_new_stream)
  have lo: "listens_on (streams w2 ?i) = c'"
    and fs: "for_stream (streams w2 ?i) g" and d0: "delivered (streams w2 ?i) = []"
    and rq: "requestId (streams w2 ?i) = rid"
    using assms(4,5) by (simp_all add: st for_stream_def new_stream_def)
  have 1: "delivered (streams (deliver P c' (Json g) w2) ?i) = [Chunk x]"
    using hears_chunk [OF l lo fs assms(6,7), of P] assms(8) n2 d0
    by (simp add: streams_deliver)
  have 2: "delivered (streams (deliver P c (Json g) w2) ?i) = []"
    using assms(9) lo n2 d0 by (simp add: streams_deliver hears_def)
  have lv: "listening (streams w2 ?i)" "\<not> completed (streams w2 ?i)"
    "ctl_state (streams w2 ?i) = Readable"
    by (simp_all add: st new_stream_def)
  from 1 2 h w2 r lo rq wi lv show ?thesis
    by (simp add: resume_ack_def resume_request_def)
qed

theorem resume_binds_current_connection_witness:
  "wire (snd (handleStreamResuming ''req-swap'' (set_agent 1 (snd (reconnectToStream fresh_world))))) =
     [(0, \<lparr> cf_type = CF_AGENT_STREAM_RESUME_REQUEST, cf_id = None, cf_init_body = None \<rparr>),
      (1, \<lparr> cf_type = CF_AGENT_STREAM_RESUME_ACK, cf_id = Some ''req-swap'',
           cf_init_body = None \<rparr>)]
   \<and> listens_on (streams (snd (handleStreamResuming ''req-swap''
        (set_agent 1 (snd (reconnectToStream fresh_world))))) 0) = 1
   \<and> delivered (streams (deliver demo_parse 1 (Json (response ''req-swap'' ''{from-new}'' False))
        (snd (handleStreamResuming ''req-swap''
          (set_agent 1 (snd (reconnectToStream fresh_world)))))) 0) = [Chunk ''{from-new}'']
   \<and> delivered (streams (deliver demo_parse 0 (Json (response ''req-swap'' ''{from-new}'' False))
        (snd (handleStreamResuming ''req-swap''
          (set_agent 1 (snd (reconnectToStream fresh_world)))))) 0) = []"
proof -
  have t: "send_throws fresh_world 1 = None" and f: "send_throws fresh_world 0 = None"
    and n: "nstreams fresh_world = 0" and a: "agent fresh_world = 0" and w: "wire fresh_world = []"
    by (simp_all add: fresh_world_def init_world_def)
  have g: "sf_type (response ''req-swap'' ''{from-new}'' False) = CF_AGENT_USE_CHAT_RESPONSE"
    "sf_id (response ''req-swap'' ''{from-new}'' False) = ''req-swap''"
    "\<not> sf_error (response ''req-swap'' ''{from-new}'' False)"
    "\<not> sf_done (response ''req-swap'' ''{from-new}'' False)"
    by (simp_all add: response_def)
  have x: "chunk_of demo_parse (response ''req-swap'' ''{from-new}'' False) = Some ''{from-new}''"
    by (simp add: chunk_of_def response_def trim_def js_whitespace_def
        demo_parse_def)
  have c: "(0::nat) \<noteq> 1" by simp
  from resume_binds_current_connection [OF refl t refl g x c]
  show ?thesis by (simp add: n a w f resume_ack_def resume_request_def)
qed

subsection \<open>Timeout and superseded calls\<close>

lemma reconnect_awaiting:
  "awaiting (ncalls w) (clock w + resume_timeout) (snd (reconnectToStream w))"
  by (simp add: awaiting_def reconnect_effect)




lemma clock_run: "clock (run P es w) = clock w + elapsed es"
proof (induction es arbitrary: w)
  case Nil
  show ?case by (simp add: run_Nil)
next
  case (Cons e es)
  have "clock (step P e w) + elapsed es = clock w + elapsed (e # es)"
    by (cases e) (simp_all add: clock_step)
  with Cons.IH [of "step P e w"] show ?case by (simp add: run_Cons)
qed





lemma advance_nothing_due:
  assumes "\<forall>(d, k)\<in>set (timers w). clock w + dt < d"
  shows "advance dt w = w\<lparr>clock := clock w + dt\<rparr>"
proof -
  have "filter (\<lambda>(d, k). d \<le> clock w + dt) (timers w) = []"
    using assms by (auto simp: filter_empty_conv)
  moreover have "filter (\<lambda>(d, k). \<not> d \<le> clock w + dt) (timers w) = timers w"
    using assms by (auto simp: filter_id_conv)
  ultimately show ?thesis by (simp add: advance_def Let_def)
qed

lemma calm_step:
  assumes "\<not> is_resuming e" and "\<not> is_reconnect e"
    and "\<forall>(d, k)\<in>set (timers w). clock w + elapsed [e] < d"
  shows "calls (step P e w) = calls w \<and> ncalls (step P e w) = ncalls w
       \<and> timers (step P e w) = timers w \<and> resumeResolver (step P e w) = resumeResolver w"
proof (cases e)
  case (Advance dt)
  with assms(3) have "advance dt w = w\<lparr>clock := clock w + dt\<rparr>"
    using advance_nothing_due [of w dt] by simp
  with Advance show ?thesis by (simp add: step_def)
qed (use assms(1,2) in \<open>simp_all add: step_def deliver_keeps abort_fires_keeps
        stream_cancel_keeps set_agent_def sendMessages_keeps\<close>)

lemma calm_run:
  assumes "\<forall>e\<in>set es. \<not> is_resuming e \<and> \<not> is_reconnect e"
    and "\<forall>(d, k)\<in>set (timers w). clock w + elapsed es < d"
  shows "calls (run P es w) = calls w \<and> ncalls (run P es w) = ncalls w
       \<and> timers (run P es w) = timers w \<and> resumeResolver (run P es w) = resumeResolver w"
  using assms
proof (induction es arbitrary: w)
  case Nil
  show ?case by (simp add: run_Nil)
next
  case (Cons e es)
  let ?w = "step P e w"
  from Cons.prems(1) have e: "\<not> is_resuming e" "\<not> is_reconnect e"
    and es: "\<forall>e\<in>set es. \<not> is_resuming e \<and> \<not> is_reconnect e" by auto
  have el: "elapsed (e # es) = elapsed [e] + elapsed es"
    by (cases e) simp_all
  from Cons.prems(2) have d: "\<forall>(d, k)\<in>set (timers w). clock w + elapsed [e] < d"
    unfolding el by fastforce
  note s = calm_step [OF e d, of P]
  have "\<forall>(d, k)\<in>set (timers ?w). clock ?w + elapsed es < d"
    using Cons.prems(2) s unfolding el by (simp add: clock_step add.assoc)
  from Cons.IH [OF es this] s show ?case by (simp add: run_Cons)
qed

text \<open>
  Two resume calls with the notification in time. When a second
  \<^verbatim>\<open>reconnectToStream\<close> call starts while the first still awaits its notification, the
  slot passes from the first call to the second. One notification, arriving before the
  first call's window has passed, then resolves the second call with a new stream that
  carries the identifier and is readable, and leaves the first pending; the first is
  resolved with \<^verbatim>\<open>null\<close> once its own window has passed, whatever else happens, and the
  second keeps its stream. No timer still pending when the first call starts is due
  before that call's own deadline; between the calls and before the notification anything
  may happen that is not itself a resume call or a notification.
\<close>

lemma notified_in_time:
  assumes "\<forall>(d, k)\<in>set (timers w). clock w + resume_timeout \<le> d"
    and "\<forall>e\<in>set esa. \<not> is_resuming e \<and> \<not> is_reconnect e"
    and "\<forall>e\<in>set esb. \<not> is_resuming e \<and> \<not> is_reconnect e"
    and "elapsed esa + elapsed esb < resume_timeout"
    and "w1 = run P esa (snd (reconnectToStream w))"
    and "w2 = run P esb (snd (reconnectToStream w1))"
    and "send_throws w2 (agent w2) = None"
    and "w3 = snd (handleStreamResuming rid w2)"
    and "resume_timeout \<le> elapsed esa + elapsed esb + elapsed es"
  shows "fst (reconnectToStream w) = ncalls w \<and> fst (reconnectToStream w1) = Suc (ncalls w)
       \<and> resumeResolver w1 = Some (ncalls w) \<and> resumeResolver w2 = Some (Suc (ncalls w))
       \<and> fst (handleStreamResuming rid w2) = Return True
       \<and> settled (calls w3 (Suc (ncalls w))) = Some (Some (nstreams w2))
       \<and> streams w3 (nstreams w2) =
           \<lparr> requestId = rid, listens_on = agent w2, completed = False, listening = True,
             ctl_state = Readable, delivered = [], resumed = True, abort_signal = NoSignal \<rparr>
       \<and> settled (calls w3 (ncalls w)) = None
       \<and> resumeResolver w3 = None
       \<and> settled (calls (run P es w3) (ncalls w)) = Some None
       \<and> settled (calls (run P es w3) (Suc (ncalls w))) = Some (Some (nstreams w2))"
proof -
  let ?k1 = "ncalls w" and ?k2 = "Suc (ncalls w)" and ?T = "clock w + resume_timeout"
  let ?T2 = "clock w + elapsed esa + resume_timeout"
  let ?r1 = "snd (reconnectToStream w)"
  have d1: "\<forall>(d, k)\<in>set (timers ?r1). clock ?r1 + elapsed esa < d"
    using assms(1,4) by (fastforce simp: reconnect_effect)
  note q1 = calm_run [OF assms(2) d1, of P]
  have s1: "resumeResolver w1 = Some ?k1"
    and c1: "calls w1 = (calls w)(?k1 := \<lparr> resolved = False, settled = None \<rparr>)"
    and m1: "timers w1 = timers w @ [(?T, ?k1)]"
    and k1: "ncalls w1 = ?k2" and cl1: "clock w1 = clock w + elapsed esa"
    using q1 by (simp_all add: assms(5) reconnect_effect clock_run)
  let ?r2 = "snd (reconnectToStream w1)"
  have d2: "\<forall>(d, k)\<in>set (timers ?r2). clock ?r2 + elapsed esb < d"
    using assms(1,4) by (fastforce simp: reconnect_effect m1 cl1)
  note q2 = calm_run [OF assms(3) d2, of P]
  have s2: "resumeResolver w2 = Some ?k2"
    and c2: "calls w2 = ((calls w)(?k1 := \<lparr> resolved = False, settled = None \<rparr>))
                          (?k2 := \<lparr> resolved = False, settled = None \<rparr>)"
    and m2: "timers w2 = timers w @ [(?T, ?k1), (?T2, ?k2)]"
    and k2: "ncalls w2 = Suc ?k2" and cl2: "clock w2 = clock w + elapsed esa + elapsed esb"
    using q2 by (simp_all add: assms(6) reconnect_effect clock_run s1 c1 m1 k1 cl1)
  note h = handle_resolves [OF s2 assms(7), of rid]
  have c3: "calls w3 = (calls w2)(?k2 := \<lparr> resolved = True, settled = Some (Some (nstreams w2)) \<rparr>)"
    and s3: "resumeResolver w3 = None"
    and m3: "timers w3 = filter (\<lambda>(t, k'). k' \<noteq> ?k2) (timers w2)"
    and k3: "ncalls w3 = Suc ?k2" and cl3: "clock w3 = clock w + elapsed esa + elapsed esb"
    and st3: "streams w3 (nstreams w2) = new_stream rid (agent w2) True NoSignal"
    by (simp_all add: assms(8) h done_call_effect c2 k2 cl2)
  have a: "awaiting ?k1 ?T w3"
    by (simp add: awaiting_def c3 c2 m3 m2 k3)
  have c: "clock w3 < ?T" using assms(4) by (simp add: cl3)
  have "timed_out ?k1 (run P es w3)"
  proof (rule run_times_out)
    show "(awaiting ?k1 ?T w3 \<and> clock w3 < ?T) \<or> timed_out ?k1 w3" using a c by simp
    show "resumeResolver w3 \<noteq> Some ?k1 \<or> (\<forall>e\<in>set es. \<not> is_resuming e)" by (simp add: s3)
    show "?T \<le> clock w3 + elapsed es" using assms(9) by (simp add: cl3)
  qed
  then have 1: "settled (calls (run P es w3) ?k1) = Some None" by (simp add: timed_out_def)
  have "calls (run P es w3) ?k2 = calls w3 ?k2"
    by (rule run_resolved) (simp_all add: k3 c3)
  then have 2: "settled (calls (run P es w3) ?k2) = Some (Some (nstreams w2))"
    by (simp add: c3)
  have 3: "fst (reconnectToStream w) = ?k1" "fst (reconnectToStream w1) = ?k2"
    by (simp_all add: reconnect_effect k1)
  from 1 2 3 s1 s2 s3 st3 h show ?thesis by (simp add: c3 c2 new_stream_def)
qed

lemma notified_in_time_example:
  "fst (handleStreamResuming ''req-sm''
      (run demo_parse [SetAgent 2] (snd (reconnectToStream
        (run demo_parse [Advance 3000] (snd (reconnectToStream fresh_world))))))) = Return True
   \<and> settled (calls (snd (handleStreamResuming ''req-sm''
      (run demo_parse [SetAgent 2] (snd (reconnectToStream
        (run demo_parse [Advance 3000] (snd (reconnectToStream fresh_world)))))))) 1) = Some (Some 0)
   \<and> settled (calls (snd (handleStreamResuming ''req-sm''
      (run demo_parse [SetAgent 2] (snd (reconnectToStream
        (run demo_parse [Advance 3000] (snd (reconnectToStream fresh_world)))))))) 0) = None
   \<and> settled (calls (run demo_parse [Advance 2001] (snd (handleStreamResuming ''req-sm''
      (run demo_parse [SetAgent 2] (snd (reconnectToStream
        (run demo_parse [Advance 3000] (snd (reconnectToStream fresh_world))))))))) 0) = Some None
   \<and> settled (calls (run demo_parse [Advance 2001] (snd (handleStreamResuming ''req-sm''
      (run demo_parse [SetAgent 2] (snd (reconnectToStream
        (run demo_parse [Advance 3000] (snd (reconnectToStream fresh_world))))))))) 1) = Some (Some 0)"
proof -
  let ?w1 = "run demo_parse [Advance 3000] (snd (reconnectToStream fresh_world))"
  let ?w2 = "run demo_parse [SetAgent 2] (snd (reconnectToStream ?w1))"
  have t0: "\<forall>(d, k)\<in>set (timers fresh_world). clock fresh_world + resume_timeout \<le> d"
    by (simp add: fresh_world_def init_world_def)
  have q1: "\<forall>e\<in>set [Advance 3000]. \<not> is_resuming e \<and> \<not> is_reconnect e"
    and q2: "\<forall>e\<in>set [SetAgent 2]. \<not> is_resuming e \<and> \<not> is_reconnect e"
    by simp_all
  have el: "elapsed [Advance 3000] + elapsed [SetAgent 2] < resume_timeout"
    and e: "resume_timeout \<le> elapsed [Advance 3000] + elapsed [SetAgent 2] + elapsed [Advance 2001]"
    by (simp_all add: resume_timeout_def)
  have t: "send_throws ?w2 (agent ?w2) = None" and s: "nstreams ?w2 = 0"
    by (simp_all add: run_Cons run_Nil step_def set_agent_def reconnect_effect advance_keeps
        fresh_world_def init_world_def)
  have n: "ncalls fresh_world = 0"
    by (simp add: fresh_world_def init_world_def)
  from notified_in_time
    [where rid = "''req-sm''" and P = demo_parse and w = fresh_world and esa = "[Advance 3000]"
       and esb = "[SetAgent 2]" and es = "[Advance 2001]", OF t0 q1 q2 el refl refl t refl e]
  show ?thesis by (simp add: n s)
qed

text \<open>
  Claim C6. The transport has a single resolver slot, and a second
  \<^verbatim>\<open>reconnectToStream\<close> call takes it over from the first; when the notification
  arrives before the first call's window has passed, the second call gets its stream and
  the first times out with \<^verbatim>\<open>null\<close> (lemma \<open>notified_in_time\<close>). But the slot is
  emptied by whichever call finishes: \<^verbatim>\<open>done\<close> sets \<^verbatim>\<open>_resumeResolver\<close> to
  \<^verbatim>\<open>null\<close> without looking at whose resolver it holds. When the second call starts
  3000 ms after the first, the first call's timer fires 2000 ms later and empties the
  slot while the second call is still pending; a notification 500 ms after that is
  refused with \<^verbatim>\<open>false\<close> and changes nothing, no stream is ever created, and the
  second, most recent call is resolved with \<^verbatim>\<open>null\<close> at its own timeout.
\<close>

theorem superseded_timeout_refuses_latest_call:
  "resumeResolver (run demo_parse [Reconnect, Advance 3000] fresh_world) = Some 0
   \<and> resumeResolver (run demo_parse [Reconnect, Advance 3000, Reconnect] fresh_world) = Some 1
   \<and> settled (calls
       (run demo_parse [Reconnect, Advance 3000, Reconnect, Advance 2500] fresh_world) 0)
     = Some None
   \<and> settled (calls
       (run demo_parse [Reconnect, Advance 3000, Reconnect, Advance 2500] fresh_world) 1)
     = None
   \<and> resumeResolver
       (run demo_parse [Reconnect, Advance 3000, Reconnect, Advance 2500] fresh_world) = None
   \<and> handleStreamResuming ''req''
       (run demo_parse [Reconnect, Advance 3000, Reconnect, Advance 2500] fresh_world)
     = (Return False,
        run demo_parse [Reconnect, Advance 3000, Reconnect, Advance 2500] fresh_world)
   \<and> settled (calls
       (run demo_parse
          [Reconnect, Advance 3000, Reconnect, Advance 2500, StreamResuming ''req'', Advance 2500]
          fresh_world) 1)
     = Some None
   \<and> nstreams
       (run demo_parse
          [Reconnect, Advance 3000, Reconnect, Advance 2500, StreamResuming ''req'', Advance 2500]
          fresh_world)
     = 0"
proof -
  let ?w = "run demo_parse [Reconnect, Advance 3000, Reconnect, Advance 2500] fresh_world"
  have s0: "resumeResolver (run demo_parse [Reconnect, Advance 3000] fresh_world) = Some 0"
    and s1: "resumeResolver (run demo_parse [Reconnect, Advance 3000, Reconnect] fresh_world)
      = Some 1"
    by (simp_all add: run_Cons run_Nil step_def reconnectToStream_def advance_def done_call_def
        agent_send_def resume_timeout_def Let_def fresh_world_def init_world_def)
  have s: "resumeResolver ?w = None" and c0: "settled (calls ?w 0) = Some None"
    and c1: "settled (calls ?w 1) = None"
    by (simp_all add: run_Cons run_Nil step_def reconnectToStream_def advance_def done_call_def
        agent_send_def resume_timeout_def Let_def fresh_world_def init_world_def)
  have h: "handleStreamResuming ''req'' ?w = (Return False, ?w)"
    using s by (rule handle_no_resolver)
  have l: "settled (calls
       (run demo_parse
          [Reconnect, Advance 3000, Reconnect, Advance 2500, StreamResuming ''req'', Advance 2500]
          fresh_world) 1) = Some None"
    and n: "nstreams
       (run demo_parse
          [Reconnect, Advance 3000, Reconnect, Advance 2500, StreamResuming ''req'', Advance 2500]
          fresh_world) = 0"
    by (simp_all add: run_Cons run_Nil step_def reconnectToStream_def advance_def done_call_def
        handleStreamResuming_def agent_send_def resume_timeout_def Let_def fresh_world_def
        init_world_def)
  from s0 s1 s c0 c1 h l n show ?thesis by blast
qed

subsection \<open>A throwing send\<close>

lemma cancel_throw_swallowed:
  assumes "i < nstreams w" and "\<not> completed (streams w i)"
    and "ctl_state (streams w i) = Readable" and "abort_signal (streams w i) = Armed"
    and "send_throws w (listens_on (streams w i)) = Some e"
  shows "wire (abort_fires i w) = wire w"
    and "delivered (streams (abort_fires i w) i) = delivered (streams w i) @ [ErrorSignal abortError]"
proof -
  show "wire (abort_fires i w) = wire w"
    using assms by (simp add: abort_fires_def wire_onAbort)
  let ?st = "(streams w i)\<lparr>abort_signal := Fired\<rparr>"
  have "streams (abort_fires i w) i = aborts ?st"
    using streams_abort_fires [OF assms(1), of i undefined] assms(4) by (simp add: stream_view_def)
  moreover have "\<not> completed ?st" "ctl_state ?st = Readable" using assms(2,3) by simp_all
  ultimately show "delivered (streams (abort_fires i w) i) =
      delivered (streams w i) @ [ErrorSignal abortError]"
    using aborts_readable(1) [of ?st] by simp
qed

lemma resume_request_throw_swallowed:
  assumes "send_throws w (agent w) = Some e"
  shows "wire (snd (reconnectToStream w)) = wire w"
    and "awaiting (ncalls w) (clock w + resume_timeout) (snd (reconnectToStream w))"
    and "resumeResolver (snd (reconnectToStream w)) = Some (ncalls w)"
  using assms by (simp_all add: reconnect_effect reconnect_awaiting)

lemma chat_request_throw_propagates:
  assumes "send_throws w (agent w) = Some e"
  shows "fst (sendMessages rid b sig w) = Throw e"
  using assms
  by (simp add: sendMessages_def Let_def agent_send_def onAbort_keeps split: option.splits)

text \<open>
  Claim C9. Of the four sends, a throw is swallowed for the cancel frame and for the
  resume request and escapes for the chat request (lemmas \<open>cancel_throw_swallowed\<close>,
  \<open>resume_request_throw_swallowed\<close>, \<open>chat_request_throw_propagates\<close>). The
  acknowledgement is sent outside any \<^verbatim>\<open>try\<close>: with a resume pending on a connection
  whose \<^verbatim>\<open>send\<close> throws, \<^verbatim>\<open>handleStreamResuming\<close> throws that error to its caller,
  after it has added the identifier to the active set; no stream is created and the
  resolver stays pending.
\<close>

theorem resume_ack_throw_escapes:
  "handleStreamResuming ''req''
     (run demo_parse [Reconnect, SetSendThrows 0 (Some closed_error)] fresh_world) =
     (Throw closed_error,
      (run demo_parse [Reconnect, SetSendThrows 0 (Some closed_error)] fresh_world)
        \<lparr>activeRequestIds := Some {''req''}\<rparr>)
   \<and> resumeResolver (snd (handleStreamResuming ''req''
       (run demo_parse [Reconnect, SetSendThrows 0 (Some closed_error)] fresh_world))) = Some 0
   \<and> nstreams (snd (handleStreamResuming ''req''
       (run demo_parse [Reconnect, SetSendThrows 0 (Some closed_error)] fresh_world))) = 0"
proof -
  let ?w = "run demo_parse [Reconnect, SetSendThrows 0 (Some closed_error)] fresh_world"
  have w: "?w = (snd (reconnectToStream fresh_world))
      \<lparr>send_throws := (send_throws (snd (reconnectToStream fresh_world)))(0 := Some closed_error)\<rparr>"
    by (simp add: run_Cons run_Nil step_def)
  have s: "resumeResolver ?w = Some 0" and t: "send_throws ?w (agent ?w) = Some closed_error"
    and a: "activeRequestIds ?w = Some {}" and n: "nstreams ?w = 0"
    unfolding w by (simp_all add: reconnect_effect fresh_world_def init_world_def)
  from handle_send_throws [OF s t, of "''req''"] s n show ?thesis
    by (simp add: a)
qed

end
